theory Spec2Isabelle
  imports Main "HOL-Library.Word" "HOL-Library.Signed_Division" "HOL-Library.Monad_Syntax"
begin

unbundle bit_operations_syntax

declare Option.bind_cong [fundef_cong]

section \<open>Data model of the SevSeg driver\<close>

text \<open>
  \<^verbatim>\<open>byte\<close> is an unsigned 8-bit value; \<^verbatim>\<open>long\<close> is a signed 32-bit value, modelled
  as \<open>int\<close> with the wrap-around \<open>long_of\<close> written at every arithmetic operation.
  Loop counters and the digit count are bytes in the source; they never exceed 255 and are
  modelled as \<open>nat\<close>.
\<close>

type_synonym byte = "8 word"

definition long_of :: "int \<Rightarrow> int" where
  "long_of k = signed_take_bit 31 k"

definition BLANK :: byte where
  "BLANK = 10"

definition DASH :: byte where
  "DASH = 11"

definition powersOf10 :: "int list" where
  "powersOf10 = [1, 10, 100, 1000, 10000, 100000, 1000000, 10000000, 100000000, 1000000000]"

text \<open>
  Reading and writing a C array at an index computed in \<^verbatim>\<open>int\<close>: outside the array the
  behaviour of the source is undefined, which is the value \<open>None\<close>.
\<close>

definition at :: "'a list \<Rightarrow> int \<Rightarrow> 'a option" where
  "at xs i = (if 0 \<le> i \<and> i < int (length xs) then Some (xs ! nat i) else None)"

definition put :: "'a list \<Rightarrow> nat \<Rightarrow> 'a \<Rightarrow> 'a list option" where
  "put xs i v = (if i < length xs then Some (xs[i := v]) else None)"

datatype level = LOW | HIGH

fun lnot :: "level \<Rightarrow> level" where
  "lnot LOW = HIGH"
| "lnot HIGH = LOW"

datatype event = PinMode byte | DigitalWrite byte level

text \<open>
  The build-time switch \<^verbatim>\<open>RESISTORS\<close> selects one of the two refresh strategies.
\<close>

datatype resistors = ON_DIGITS | ON_SEGMENTS

text \<open>
  The driver object, together with the two function-local statics of \<^verbatim>\<open>findDigits\<close>
  (\<open>bounds\<close>: \<open>None\<close> until the first call has initialised \<^verbatim>\<open>maxNum\<close> and
  \<^verbatim>\<open>minNum\<close>) and the trace of calls made to the platform (\<open>io\<close>, oldest first).
  The members are declared in \<^verbatim>\<open>SevSeg.h\<close>, which is not among the sources; their types
  are read off their uses: levels for the four polarities, byte arrays for pins and codes.
\<close>

record sevseg =
  numDigits :: nat
  digitOn :: level
  digitOff :: level
  segmentOn :: level
  segmentOff :: level
  digitPins :: "byte list"
  segmentPins :: "byte list"
  digitCodes :: "byte list"
  ledOnTime :: int
  common :: nat
  bounds :: "(int \<times> int) option"
  io :: "event list"

text \<open>
  A counting loop \<^verbatim>\<open>for (byte i = i0; i < n; i++) body\<close> whose body neither changes
  the bound nor leaves the loop early.
\<close>

function for_loop :: "nat \<Rightarrow> nat \<Rightarrow> (nat \<Rightarrow> 'a \<Rightarrow> 'a option) \<Rightarrow> 'a \<Rightarrow> 'a option" where
  "for_loop i n body s =
     (if i < n then do { s \<leftarrow> body i s; for_loop (i + 1) n body s } else Some s)"
  by pat_completeness auto
termination
  by (relation "measure (\<lambda>(i, n, body, s). n - i)") auto

declare for_loop.simps [simp del]

text \<open>The calls to the platform are recorded in the trace.\<close>

definition pinMode_OUTPUT :: "byte \<Rightarrow> sevseg \<Rightarrow> sevseg" where
  "pinMode_OUTPUT pin s = s\<lparr>io := io s @ [PinMode pin]\<rparr>"

definition digitalWrite :: "byte \<Rightarrow> level \<Rightarrow> sevseg \<Rightarrow> sevseg" where
  "digitalWrite pin v s = s\<lparr>io := io s @ [DigitalWrite pin v]\<rparr>"

text \<open>
  Modelled from the spec: the macros \<^verbatim>\<open>S7_SEGMENTS\<close> and \<^verbatim>\<open>SEGMENTS\<close> are defined in
  \<^verbatim>\<open>SevSeg.h\<close>, which is not among the sources; the spec counts 8 segment lines
  (7 segments and the decimal point), as the loops of \<^verbatim>\<open>begin\<close> do. The maximal digit
  count \<^verbatim>\<open>S7_DIGITS\<close> of the same header is a parameter of \<open>begin'\<close>.
\<close>

definition S7_SEGMENTS :: nat where
  "S7_SEGMENTS = 8"

definition SEGMENTS :: nat where
  "SEGMENTS = 8"

section \<open>Digit encoder\<close>

subsection \<open>findDigits\<close>

text \<open>
  The initialisers of the statics:
  \<^verbatim>\<open>maxNum = powersOf10[numDigits] - 1\<close> and \<^verbatim>\<open>minNum = -(powersOf10[numDigits - 1] - 1)\<close>.
\<close>

definition init_bounds :: "nat \<Rightarrow> (int \<times> int) option" where
  "init_bounds n = do {
     hi \<leftarrow> at powersOf10 (int n);
     lo \<leftarrow> at powersOf10 (int n - 1);
     Some (long_of (hi - 1), long_of (- long_of (lo - 1)))
   }"

text \<open>The overflow fallback: \<^verbatim>\<open>for (digitNum = 0; digitNum < numDigits; digitNum++) digits[digitNum] = DASH\<close>.\<close>

function dash_loop :: "nat \<Rightarrow> nat \<Rightarrow> byte list \<Rightarrow> byte list option" where
  "dash_loop n digitNum digits =
     (if digitNum < n then do {
        digits \<leftarrow> put digits digitNum DASH;
        dash_loop n (digitNum + 1) digits
      } else Some digits)"
  by pat_completeness auto
termination
  by (relation "measure (\<lambda>(n, digitNum, digits). n - digitNum)") auto

declare dash_loop.simps [simp del]

text \<open>
  The base 10 decomposition, most significant digit first. The quotient of two
  \<^verbatim>\<open>long\<close>s truncates towards zero and is narrowed to a byte when stored; the product
  \<^verbatim>\<open>digits[digitNum] * factor\<close> is computed in \<^verbatim>\<open>long\<close>.
\<close>

function digit_loop :: "nat \<Rightarrow> nat \<Rightarrow> int \<Rightarrow> byte list \<Rightarrow> byte list option" where
  "digit_loop n digitNum numToShow digits =
     (if digitNum < n then do {
        factor \<leftarrow> at powersOf10 (int n - 1 - int digitNum);
        digits \<leftarrow> put digits digitNum (word_of_int (numToShow sdiv factor));
        digit_loop n (digitNum + 1)
          (long_of (numToShow - long_of (uint (digits ! digitNum) * factor))) digits
      } else Some digits)"
  by pat_completeness auto
termination
  by (relation "measure (\<lambda>(n, digitNum, numToShow, digits). n - digitNum)") auto

declare digit_loop.simps [simp del]

text \<open>
  Leading zeros become BLANK. The bound \<^verbatim>\<open>numDigits - 1 - decPlaces\<close> is computed in
  \<^verbatim>\<open>int\<close> and may be negative. The loop exits at the first glyph between 1 and 9; a
  glyph above 9 is stepped over.
\<close>

function blank_loop :: "nat \<Rightarrow> nat \<Rightarrow> nat \<Rightarrow> byte list \<Rightarrow> byte list option" where
  "blank_loop n decPlaces digitNum digits =
     (if int digitNum < int n - 1 - int decPlaces then do {
        d \<leftarrow> at digits (int digitNum);
        if d = 0 then do {
          digits \<leftarrow> put digits digitNum BLANK;
          blank_loop n decPlaces (digitNum + 1) digits
        }
        else if d \<le> 9 then Some digits
        else blank_loop n decPlaces (digitNum + 1) digits
      } else Some digits)"
  by pat_completeness auto
termination
  by (relation "measure (\<lambda>(n, decPlaces, digitNum, digits). n - digitNum)") auto

declare blank_loop.simps [simp del]

text \<open>
  The in-range branch up to the blanking pass: the sign, then the decomposition of the
  absolute value over the remaining positions.
\<close>

definition decompose :: "nat \<Rightarrow> int \<Rightarrow> byte list \<Rightarrow> byte list option" where
  "decompose n numToShow digits =
     (if numToShow < 0 then do {
        digits \<leftarrow> put digits 0 DASH;
        digit_loop n 1 (long_of (- numToShow)) digits
      } else digit_loop n 0 numToShow digits)"

text \<open>
  \<open>findDigits\<close> returns the filled \<^verbatim>\<open>digits\<close> array and the state, in which the
  statics are initialised.
\<close>

definition findDigits :: "sevseg \<Rightarrow> int \<Rightarrow> nat \<Rightarrow> byte list \<Rightarrow> (byte list \<times> sevseg) option" where
  "findDigits s numToShow decPlaces digits = do {
     (maxNum, minNum) \<leftarrow> (case bounds s of Some b \<Rightarrow> Some b | None \<Rightarrow> init_bounds (numDigits s));
     let s = s\<lparr>bounds := Some (maxNum, minNum)\<rparr>;
     if numToShow > maxNum \<or> numToShow < minNum then do {
       digits \<leftarrow> dash_loop (numDigits s) 0 digits;
       Some (digits, s)
     } else do {
       digits \<leftarrow> decompose (numDigits s) numToShow digits;
       digits \<leftarrow> blank_loop (numDigits s) decPlaces 0 digits;
       Some (digits, s)
     }
   }"

subsection \<open>setDigitCodes\<close>

definition digitCodeMap :: "byte list" where
  "digitCodeMap =
     [0x3F, 0x06, 0x5B, 0x4F, 0x66, 0x6D, 0x7D, 0x07, 0x7F, 0x6F, 0x00, 0x40]"

function code_loop :: "nat \<Rightarrow> nat \<Rightarrow> byte list \<Rightarrow> nat \<Rightarrow> byte list \<Rightarrow> byte list option" where
  "code_loop n decPlaces digits digitNum codes =
     (if digitNum < n then do {
        g \<leftarrow> at digits (int digitNum);
        c \<leftarrow> at digitCodeMap (uint g);
        codes \<leftarrow> put codes digitNum c;
        codes \<leftarrow> (if int digitNum = int n - 1 - int decPlaces
                   then put codes digitNum ((codes ! digitNum) OR 0x80) else Some codes);
        code_loop n decPlaces digits (digitNum + 1) codes
      } else Some codes)"
  by pat_completeness auto
termination
  by (relation "measure (\<lambda>(n, decPlaces, digits, digitNum, codes). n - digitNum)") auto

declare code_loop.simps [simp del]

definition setDigitCodes :: "sevseg \<Rightarrow> byte list \<Rightarrow> nat \<Rightarrow> sevseg option" where
  "setDigitCodes s digits decPlaces = do {
     codes \<leftarrow> code_loop (numDigits s) decPlaces digits 0 (digitCodes s);
     Some (s\<lparr>digitCodes := codes\<rparr>)
   }"

subsection \<open>setNewNum and the integer entry point\<close>

text \<open>
  The local array \<^verbatim>\<open>byte digits[numDigits]\<close> is not initialised by the source;
  \<open>findDigits\<close> overwrites every position of it, so its first content (here zeros) does
  not reach the result (\<open>findDigits_init_irrelevant\<close> below).
\<close>

definition setNewNum :: "sevseg \<Rightarrow> int \<Rightarrow> nat \<Rightarrow> sevseg option" where
  "setNewNum s numToShow decPlaces = do {
     (digits, s) \<leftarrow> findDigits s numToShow decPlaces (replicate (numDigits s) 0);
     setDigitCodes s digits decPlaces
   }"

definition setNumber :: "sevseg \<Rightarrow> int \<Rightarrow> nat \<Rightarrow> sevseg option" where
  "setNumber s numToShow decPlaces = setNewNum s numToShow decPlaces"

section \<open>Construction and begin\<close>

text \<open>
  The constructor sets two members and leaves the others as they are in memory (\<open>m\<close>).
\<close>

definition SevSeg :: "sevseg \<Rightarrow> sevseg" where
  "SevSeg m = m\<lparr>ledOnTime := 2000, numDigits := 0\<rparr>"

text \<open>
  \<open>begin'\<close> is \<^verbatim>\<open>SevSeg::begin\<close>. A \<^verbatim>\<open>hardwareConfig\<close> outside 0 to 3 leaves
  \<^verbatim>\<open>digitOn\<close> and \<^verbatim>\<open>segmentOn\<close> as they are; its last statement sets the number 0.
\<close>

definition begin' ::
  "nat \<Rightarrow> byte \<Rightarrow> byte \<Rightarrow> byte list \<Rightarrow> byte list \<Rightarrow> sevseg \<Rightarrow> sevseg option" where
  "begin' S7_DIGITS hardwareConfig numDigitsIn digitPinsIn segmentPinsIn s = do {
     let s = s\<lparr>numDigits := unat numDigitsIn\<rparr>;
     let s = (if numDigits s > S7_DIGITS then s\<lparr>numDigits := S7_DIGITS\<rparr> else s);
     let s = (if hardwareConfig = 0 then s\<lparr>digitOn := LOW, segmentOn := HIGH\<rparr>
              else if hardwareConfig = 1 then s\<lparr>digitOn := HIGH, segmentOn := LOW\<rparr>
              else if hardwareConfig = 2 then s\<lparr>digitOn := HIGH, segmentOn := HIGH\<rparr>
              else if hardwareConfig = 3 then s\<lparr>digitOn := LOW, segmentOn := LOW\<rparr>
              else s);
     let s = s\<lparr>digitOff := lnot (digitOn s)\<rparr>;
     let s = s\<lparr>segmentOff := lnot (segmentOn s)\<rparr>;
     s \<leftarrow> for_loop 0 8 (\<lambda>segmentNum s. do {
            pin \<leftarrow> at segmentPinsIn (int segmentNum);
            pins \<leftarrow> put (segmentPins s) segmentNum pin;
            Some (s\<lparr>segmentPins := pins\<rparr>)
          }) s;
     s \<leftarrow> for_loop 0 (numDigits s) (\<lambda>digitNum s. do {
            pin \<leftarrow> at digitPinsIn (int digitNum);
            pins \<leftarrow> put (digitPins s) digitNum pin;
            Some (s\<lparr>digitPins := pins\<rparr>)
          }) s;
     s \<leftarrow> for_loop 0 (numDigits s) (\<lambda>digit s. do {
            pin \<leftarrow> at (digitPins s) (int digit);
            Some (digitalWrite pin (digitOff s) (pinMode_OUTPUT pin s))
          }) s;
     s \<leftarrow> for_loop 0 8 (\<lambda>segmentNum s. do {
            pin \<leftarrow> at (segmentPins s) (int segmentNum);
            Some (digitalWrite pin (segmentOff s) (pinMode_OUTPUT pin s))
          }) s;
     setNewNum s 0 0
   }"

section \<open>Refresh engine\<close>

definition REFRESH_STEPS :: "resistors \<Rightarrow> sevseg \<Rightarrow> nat" where
  "REFRESH_STEPS r s = (case r of ON_DIGITS \<Rightarrow> S7_SEGMENTS | ON_SEGMENTS \<Rightarrow> numDigits s)"

definition lightsOn :: "resistors \<Rightarrow> nat \<Rightarrow> sevseg \<Rightarrow> sevseg option" where
  "lightsOn r step s = (case r of
     ON_DIGITS \<Rightarrow> do {
       let bitmask = (push_bit step 1 :: byte);
       s \<leftarrow> for_loop 0 (numDigits s) (\<lambda>digit s. do {
              code \<leftarrow> at (digitCodes s) (int digit);
              if code AND bitmask \<noteq> 0 then do {
                pin \<leftarrow> at (digitPins s) (int digit);
                Some (digitalWrite pin (digitOn s) s)
              } else Some s
            }) s;
       pin \<leftarrow> at (segmentPins s) (int step);
       Some (digitalWrite pin (segmentOn s) s)
     }
   | ON_SEGMENTS \<Rightarrow> do {
       code \<leftarrow> at (digitCodes s) (int step);
       s \<leftarrow> for_loop 0 SEGMENTS (\<lambda>segment s.
              if code AND push_bit segment 1 \<noteq> 0 then do {
                pin \<leftarrow> at (segmentPins s) (int segment);
                Some (digitalWrite pin (segmentOn s) s)
              } else Some s) s;
       pin \<leftarrow> at (digitPins s) (int step);
       Some (digitalWrite pin (digitOn s) s)
     })"

definition lightsOff :: "resistors \<Rightarrow> nat \<Rightarrow> sevseg \<Rightarrow> sevseg option" where
  "lightsOff r step s = (case r of
     ON_DIGITS \<Rightarrow> do {
       pin \<leftarrow> at (segmentPins s) (int step);
       let s = digitalWrite pin (segmentOff s) s;
       for_loop 0 (numDigits s) (\<lambda>digit s. do {
         pin \<leftarrow> at (digitPins s) (int digit);
         Some (digitalWrite pin (digitOff s) s)
       }) s
     }
   | ON_SEGMENTS \<Rightarrow> do {
       pin \<leftarrow> at (digitPins s) (int step);
       let s = digitalWrite pin (digitOff s) s;
       for_loop 0 SEGMENTS (\<lambda>segment s. do {
         pin \<leftarrow> at (segmentPins s) (int segment);
         Some (digitalWrite pin (segmentOff s) s)
       }) s
     })"

text \<open>
  The cursor \<^verbatim>\<open>common\<close> is taken to be a byte, as the other counters of the class are:
  the increment wraps at 256 before the comparison.
\<close>

definition updateDisplay :: "resistors \<Rightarrow> sevseg \<Rightarrow> sevseg option" where
  "updateDisplay r s = do {
     s \<leftarrow> lightsOff r (common s) s;
     let s = s\<lparr>common := (common s + 1) mod 256\<rparr>;
     let s = (if common s = REFRESH_STEPS r s then s\<lparr>common := 0\<rparr> else s);
     lightsOn r (common s) s
   }"

definition clearDisplay :: "sevseg \<Rightarrow> sevseg option" where
  "clearDisplay s = do {
     s \<leftarrow> for_loop 0 (numDigits s) (\<lambda>digit s. do {
            pin \<leftarrow> at (digitPins s) (int digit);
            Some (digitalWrite pin (digitOff s) s)
          }) s;
     for_loop 0 S7_SEGMENTS (\<lambda>segment s. do {
       pin \<leftarrow> at (segmentPins s) (int segment);
       Some (digitalWrite pin (segmentOff s) s)
     }) s
   }"


section \<open>Reading the display back\<close>

text \<open>
  The bounds of the displayable range as the specification gives them.
\<close>

definition maxValue :: "nat \<Rightarrow> int" where
  "maxValue digitCount = 10 ^ digitCount - 1"

definition minValue :: "nat \<Rightarrow> int" where
  "minValue digitCount = - (10 ^ (digitCount - 1) - 1)"

text \<open>
  The statics of \<open>findDigits\<close> are either not yet initialised or hold the bounds of the
  digit count the driver is configured with.
\<close>

definition bounds_fit :: "sevseg \<Rightarrow> bool" where
  "bounds_fit s \<longleftrightarrow>
     bounds s = None \<or> bounds s = Some (maxValue (numDigits s), minValue (numDigits s))"


fun digits_value :: "int \<Rightarrow> byte list \<Rightarrow> int option" where
  "digits_value acc [] = Some acc"
| "digits_value acc (g # gs) = (if g \<le> 9 then digits_value (10 * acc + uint g) gs else None)"

definition not_blank :: "byte \<Rightarrow> bool" where
  "not_blank g \<longleftrightarrow> g \<noteq> BLANK"

definition decode_glyphs :: "byte list \<Rightarrow> int option" where
  "decode_glyphs gs = (case filter not_blank gs of
       [] \<Rightarrow> None
     | g # rest \<Rightarrow>
         if g = DASH then (if rest = [] then None else map_option uminus (digits_value 0 rest))
         else digits_value 0 (g # rest))"


text \<open>The decimal-point bits of the displayed segment codes, position 0 first.\<close>

definition has_point :: "byte \<Rightarrow> bool" where
  "has_point c \<longleftrightarrow> bit c 7"

definition point_bits :: "sevseg \<Rightarrow> bool list" where
  "point_bits s = map has_point (take (numDigits s) (digitCodes s))"

text \<open>A four-digit common-cathode display on which no number has been set yet.\<close>

definition four_digits :: sevseg where
  "four_digits = \<lparr>numDigits = 4, digitOn = LOW, digitOff = HIGH, segmentOn = HIGH, segmentOff = LOW,
     digitPins = [2, 3, 4, 5, 0, 0, 0, 0], segmentPins = [6, 7, 8, 9, 10, 11, 12, 13],
     digitCodes = [0, 0, 0, 0, 0, 0, 0, 0], ledOnTime = 2000, common = 0, bounds = None, io = []\<rparr>"

text \<open>
  The blanking pass as the specification words it: while the index is below
  \<open>digitCount - 1 - decimalPlaces\<close> and the glyph is 0, replace it with BLANK; stop at
  the first nonzero glyph.
\<close>

function blanking_as_worded :: "nat \<Rightarrow> nat \<Rightarrow> nat \<Rightarrow> byte list \<Rightarrow> byte list" where
  "blanking_as_worded n decPlaces i glyphs =
     (if int i < int n - 1 - int decPlaces \<and> i < length glyphs \<and> glyphs ! i = 0
      then blanking_as_worded n decPlaces (i + 1) (glyphs[i := BLANK]) else glyphs)"
  by pat_completeness auto
termination
  by (relation "measure (\<lambda>(n, decPlaces, i, glyphs). n - i)") auto

section \<open>Well-formed drivers and the writes of a refresh step\<close>

text \<open>
  The member arrays have room for the digits in use and for the 8 segment lines, and the
  digit count is a byte. \<open>begin'\<close> clamps the digit count to the capacity of the arrays.
\<close>

definition well_formed :: "sevseg \<Rightarrow> bool" where
  "well_formed s \<longleftrightarrow>
     numDigits s < 256 \<and> numDigits s \<le> length (digitPins s)
     \<and> numDigits s \<le> length (digitCodes s) \<and> length (segmentPins s) = 8"

text \<open>
  The writes of the off-action and of the on-action of a refresh step, as the table of the
  two drive strategies gives them.
\<close>

definition off_writes :: "resistors \<Rightarrow> nat \<Rightarrow> sevseg \<Rightarrow> event list" where
  "off_writes r step s = (case r of
     ON_DIGITS \<Rightarrow> DigitalWrite (segmentPins s ! step) (segmentOff s)
                  # [DigitalWrite (digitPins s ! d) (digitOff s). d \<leftarrow> [0..<numDigits s]]
   | ON_SEGMENTS \<Rightarrow> DigitalWrite (digitPins s ! step) (digitOff s)
                  # [DigitalWrite (segmentPins s ! g) (segmentOff s). g \<leftarrow> [0..<8]])"

definition on_writes :: "resistors \<Rightarrow> nat \<Rightarrow> sevseg \<Rightarrow> event list" where
  "on_writes r step s = (case r of
     ON_DIGITS \<Rightarrow> [DigitalWrite (digitPins s ! d) (digitOn s).
                     d \<leftarrow> [0..<numDigits s], bit (digitCodes s ! d) step]
                  @ [DigitalWrite (segmentPins s ! step) (segmentOn s)]
   | ON_SEGMENTS \<Rightarrow> [DigitalWrite (segmentPins s ! g) (segmentOn s).
                     g \<leftarrow> [0..<8], bit (digitCodes s ! step) g]
                  @ [DigitalWrite (digitPins s ! step) (digitOn s)])"

text \<open>The four-digit display showing 1234 with the cursor on its last step.\<close>

definition showing_1234 :: sevseg where
  "showing_1234 = four_digits\<lparr>digitCodes := [0x06, 0x5B, 0x4F, 0xE6, 0, 0, 0, 0], common := 3\<rparr>"

text \<open>The state \<open>begin'\<close> leaves when a new driver is set up for two digits.\<close>

definition two_digits :: sevseg where
  "two_digits = \<lparr>numDigits = 2, digitOn = LOW, digitOff = HIGH, segmentOn = HIGH, segmentOff = LOW,
     digitPins = [2, 3, 4, 5, 0, 0, 0, 0], segmentPins = [6, 7, 8, 9, 10, 11, 12, 13],
     digitCodes = [0, 0xBF, 0, 0, 0, 0, 0, 0], ledOnTime = 2000, common = 0,
     bounds = Some (99, - 9),
     io = [PinMode 2, DigitalWrite 2 HIGH, PinMode 3, DigitalWrite 3 HIGH,
           PinMode 6, DigitalWrite 6 LOW, PinMode 7, DigitalWrite 7 LOW,
           PinMode 8, DigitalWrite 8 LOW, PinMode 9, DigitalWrite 9 LOW,
           PinMode 10, DigitalWrite 10 LOW, PinMode 11, DigitalWrite 11 LOW,
           PinMode 12, DigitalWrite 12 LOW, PinMode 13, DigitalWrite 13 LOW]\<rparr>"

section \<open>Arithmetic of the encoder\<close>

lemma long_of_id: "- 2147483648 \<le> k \<Longrightarrow> k \<le> 2147483647 \<Longrightarrow> long_of k = k"
  unfolding long_of_def by (simp add: signed_take_bit_int_eq_self)

lemma at_powersOf10: "k < 10 \<Longrightarrow> at powersOf10 (int k) = Some (10 ^ k)"
proof -
  assume "k < 10"
  then have "k \<in> {0, 1, 2, 3, 4, 5, 6, 7, 8, 9}" by auto
  then show ?thesis
    by (auto simp: at_def powersOf10_def)
qed

lemma pow10_le: "k \<le> 9 \<Longrightarrow> (10::int) ^ k \<le> 1000000000"
proof -
  assume "k \<le> 9"
  then have "(10::int) ^ k \<le> 10 ^ 9" by (intro power_increasing) auto
  then show ?thesis by simp
qed

lemma init_bounds_eq:
  assumes "1 \<le> n" "n \<le> 9"
  shows "init_bounds n = Some (maxValue n, minValue n)"
proof -
  have a: "at powersOf10 (int n) = Some (10 ^ n)" using assms by (simp add: at_powersOf10)
  have "int n - 1 = int (n - 1)" using assms by simp
  then have b: "at powersOf10 (int n - 1) = Some (10 ^ (n - 1))"
    using assms at_powersOf10 [of "n - 1"] by simp
  have p1: "(10::int) ^ n \<le> 1000000000" using assms by (simp add: pow10_le)
  have p2: "(10::int) ^ (n - 1) \<le> 1000000000" using assms by (simp add: pow10_le)
  have p3: "(0::int) < 10 ^ n" "(0::int) < 10 ^ (n - 1)" by simp_all
  have l1: "long_of (10 ^ n - 1) = 10 ^ n - 1" using p1 p3 by (intro long_of_id) linarith+
  have l2: "long_of (10 ^ (n - 1) - 1) = 10 ^ (n - 1) - 1" using p2 p3 by (intro long_of_id) linarith+
  have l3: "long_of (- (10 ^ (n - 1) - 1)) = - (10 ^ (n - 1) - 1)" using p2 p3 by (intro long_of_id) linarith+
  show ?thesis
    unfolding init_bounds_def a b maxValue_def minValue_def
    by (simp only: bind.bind_lunit l2 l1 l3)
qed

lemma dash_loop_eq:
  "k \<le> n \<Longrightarrow> length ds = n \<Longrightarrow> dash_loop n k ds = Some (take k ds @ replicate (n - k) DASH)"
proof (induction n k ds rule: dash_loop.induct)
  case (1 n digitNum digits)
  show ?case
  proof (cases "digitNum < n")
    case True
    then have lt: "digitNum < length digits" using 1 by simp
    have "dash_loop n digitNum digits = dash_loop n (digitNum + 1) (digits[digitNum := DASH])"
      using True lt by (subst dash_loop.simps) (simp add: put_def)
    also have "\<dots> = Some (take (digitNum + 1) (digits[digitNum := DASH]) @ replicate (n - (digitNum + 1)) DASH)"
      using 1 True lt by (intro "1.IH") (auto simp: put_def)
    also have "take (digitNum + 1) (digits[digitNum := DASH]) = take digitNum digits @ [DASH]"
      using lt by (simp add: take_Suc_conv_app_nth)
    also have "(take digitNum digits @ [DASH]) @ replicate (n - (digitNum + 1)) DASH = take digitNum digits @ replicate (n - digitNum) DASH"
      using True by (simp add: replicate_append_same Suc_diff_Suc flip: replicate_Suc)
    finally show ?thesis .
  next
    case False
    then show ?thesis using 1 by (subst dash_loop.simps) simp
  qed
qed

lemma sdiv_nonneg: "0 \<le> a \<Longrightarrow> 0 < b \<Longrightarrow> a sdiv b = a div (b::int)"
  by (simp add: signed_divide_int_def sgn_if)

lemma byte_of_digit:
  assumes "0 \<le> q" "q < 10"
  shows "uint (word_of_int q :: byte) = q \<and> (word_of_int q :: byte) \<le> 9"
proof -
  have "q = 0 \<or> q = 1 \<or> q = 2 \<or> q = 3 \<or> q = 4 \<or> q = 5 \<or> q = 6 \<or> q = 7 \<or> q = 8 \<or> q = 9"
    using assms by arith
  then show ?thesis by auto
qed

lemma digit_loop_value:
  assumes "k \<le> n" "n \<le> 9" "length ds = n" "0 \<le> m" "m < 10 ^ (n - k)"
  shows "\<exists>ds'. digit_loop n k m ds = Some ds' \<and> length ds' = n \<and> take k ds' = take k ds
            \<and> (\<forall>acc. digits_value acc (drop k ds') = Some (acc * 10 ^ (n - k) + m))"
  using assms
proof (induction n k m ds rule: digit_loop.induct)
  case (1 n digitNum numToShow digits)
  note prems = "1.prems"
  show ?case
  proof (cases "digitNum < n")
    case False
    then have "digitNum = n" using prems by simp
    then show ?thesis using prems by (subst digit_loop.simps) simp
  next
    case True
    define e where "e = n - 1 - digitNum"
    define factor :: int where "factor = 10 ^ e"
    define q where "q = numToShow div factor"
    define d :: byte where "d = word_of_int q"
    define ds1 where "ds1 = digits[digitNum := d]"
    define r where "r = numToShow mod factor"
    have e: "n - digitNum = Suc e" "e < 10" "int n - 1 - int digitNum = int e" "n - (digitNum + 1) = e"
      using True prems by (auto simp: e_def)
    have fpos: "0 < factor" by (simp add: factor_def)
    have lt: "digitNum < length digits" using True prems by simp
    have fac: "at powersOf10 (int n - 1 - int digitNum) = Some factor"
      using e by (simp add: at_powersOf10 factor_def)
    have ten: "numToShow < 10 * factor" using prems e by (simp add: factor_def)
    have r: "0 \<le> r" "r < factor" "numToShow = q * factor + r"
      using fpos by (auto simp: r_def q_def)
    have q: "0 \<le> q" "q < 10"
    proof -
      show "0 \<le> q" using prems fpos by (simp add: q_def pos_imp_zdiv_nonneg_iff)
      show "q < 10"
      proof (rule ccontr)
        assume "\<not> q < 10"
        then have "10 * factor \<le> q * factor" using fpos by (intro mult_right_mono) auto
        then show False using r ten by linarith
      qed
    qed
    have d: "uint d = q" "d \<le> 9" using byte_of_digit [OF q] by (simp_all add: d_def)
    have sd: "numToShow sdiv factor = q" using prems fpos by (simp add: sdiv_nonneg q_def)
    have fle: "factor \<le> 1000000000" using e by (simp add: factor_def pow10_le)
    have qf: "0 \<le> q * factor" using q fpos by simp
    have "(10::int) ^ (n - digitNum) \<le> 1000000000" using prems by (intro pow10_le) simp
    then have small: "numToShow < 1000000000" using prems by linarith
    have w1: "long_of (uint (ds1 ! digitNum) * factor) = q * factor"
    proof -
      have "ds1 ! digitNum = d" using lt by (simp add: ds1_def)
      moreover have "long_of (q * factor) = q * factor"
        using qf r small by (intro long_of_id) linarith+
      ultimately show ?thesis using d by simp
    qed
    have w2: "long_of (numToShow - q * factor) = r"
    proof -
      have "numToShow - q * factor = r" using r by simp
      moreover have "long_of r = r" using r fle by (intro long_of_id) linarith+
      ultimately show ?thesis by simp
    qed
    have p: "put digits digitNum (word_of_int (numToShow sdiv factor)) = Some ds1"
      using lt by (simp add: put_def sd ds1_def d_def)
    have arg: "long_of (numToShow - long_of (uint (ds1 ! digitNum) * factor)) = r"
      by (simp only: w1 w2)
    have step: "digit_loop n digitNum numToShow digits = digit_loop n (digitNum + 1) r ds1"
      using True by (subst digit_loop.simps) (simp only: if_True fac p arg bind.bind_lunit)
    have "\<exists>ds'. digit_loop n (digitNum + 1) r ds1 = Some ds' \<and> length ds' = n
            \<and> take (digitNum + 1) ds' = take (digitNum + 1) ds1
            \<and> (\<forall>acc. digits_value acc (drop (digitNum + 1) ds') = Some (acc * 10 ^ (n - (digitNum + 1)) + r))"
    proof (rule "1.IH" [OF True fac p, unfolded arg])
      show "digitNum + 1 \<le> n" using True by simp
      show "n \<le> 9" by (rule prems)
      show "length ds1 = n" using prems by (simp add: ds1_def)
      show "0 \<le> r" by (rule r)
      show "r < 10 ^ (n - (digitNum + 1))" using r e by (simp add: factor_def)
    qed
    then obtain ds' where ds': "digit_loop n (digitNum + 1) r ds1 = Some ds'" "length ds' = n"
       "take (digitNum + 1) ds' = take (digitNum + 1) ds1"
       "\<And>acc. digits_value acc (drop (digitNum + 1) ds') = Some (acc * 10 ^ (n - (digitNum + 1)) + r)"
      by blast
    have nth: "ds' ! digitNum = d"
    proof -
      have "take (digitNum + 1) ds' ! digitNum = take (digitNum + 1) ds1 ! digitNum"
        by (simp only: ds'(3))
      then have "ds' ! digitNum = ds1 ! digitNum" by simp
      then show ?thesis using lt by (simp add: ds1_def)
    qed
    have tk: "take digitNum ds' = take digitNum digits"
    proof -
      have "take digitNum (take (digitNum + 1) ds') = take digitNum (take (digitNum + 1) ds1)"
        by (simp only: ds'(3))
      then show ?thesis by (simp add: min_def ds1_def)
    qed
    have dr: "drop digitNum ds' = d # drop (digitNum + 1) ds'"
      using Cons_nth_drop_Suc [of digitNum ds'] True ds'(2) nth by simp
    have val: "digits_value acc (drop digitNum ds') = Some (acc * 10 ^ (n - digitNum) + numToShow)" for acc
    proof -
      have "digits_value (10 * acc + q) (drop (Suc digitNum) ds') = Some ((10 * acc + q) * factor + r)"
        using ds'(4) [of "10 * acc + q"] e by (simp add: factor_def)
      then have "digits_value acc (drop digitNum ds') = Some ((10 * acc + q) * factor + r)"
        by (simp add: dr d)
      also have "(10 * acc + q) * factor + r = acc * 10 ^ (n - digitNum) + numToShow"
        by (simp add: e r(3) factor_def algebra_simps)
      finally show ?thesis .
    qed
    show ?thesis using step ds'(1,2) tk val by simp
  qed
qed

section \<open>The blanking pass\<close>

lemma shift_lower_bound:
  assumes "P k"
  shows "(\<forall>j. k \<le> j \<and> j < i \<longrightarrow> P j) \<longleftrightarrow> (\<forall>j. k + 1 \<le> j \<and> j < (i::nat) \<longrightarrow> P j)"
proof (intro iffI allI impI)
  fix j assume "\<forall>j. k \<le> j \<and> j < i \<longrightarrow> P j" "k + 1 \<le> j \<and> j < i"
  then show "P j" by simp
next
  fix j assume h: "\<forall>j. k + 1 \<le> j \<and> j < i \<longrightarrow> P j" "k \<le> j \<and> j < i"
  show "P j"
  proof (cases "j = k")
    case True
    then show ?thesis using assms by simp
  next
    case False
    then have "k + 1 \<le> j \<and> j < i" using h(2) by simp
    then show ?thesis using h(1) by blast
  qed
qed

lemma blank_loop_nth:
  assumes "length ds = n"
  shows "\<exists>ds'. blank_loop n dp k ds = Some ds' \<and> length ds' = n \<and>
     (\<forall>i<n. ds' ! i = (if k \<le> i \<and> int i < int n - 1 - int dp \<and> ds ! i = 0
                            \<and> (\<forall>j. k \<le> j \<and> j < i \<longrightarrow> ds ! j = 0 \<or> 9 < ds ! j)
                         then BLANK else ds ! i))"
  using assms
proof (induction n dp k ds rule: blank_loop.induct)
  case (1 n decPlaces digitNum digits)
  note len = "1.prems"
  show ?case
  proof (cases "int digitNum < int n - 1 - int decPlaces")
    case False
    then show ?thesis using len by (subst blank_loop.simps) auto
  next
    case True
    then have lt: "digitNum < length digits" using len by simp
    have rd: "at digits (int digitNum) = Some (digits ! digitNum)" using lt by (simp add: at_def)
    consider (zero) "digits ! digitNum = 0" | (digit) "digits ! digitNum \<noteq> 0" "digits ! digitNum \<le> 9"
      | (other) "digits ! digitNum \<noteq> 0" "\<not> digits ! digitNum \<le> 9" by blast
    then show ?thesis
    proof cases
      case zero
      define ds1 where "ds1 = digits[digitNum := BLANK]"
      have p: "put digits digitNum BLANK = Some ds1" using lt by (simp add: put_def ds1_def)
      have step: "blank_loop n decPlaces digitNum digits = blank_loop n decPlaces (digitNum + 1) ds1"
        using True zero by (subst blank_loop.simps) (simp add: rd p)
      have "length ds1 = n" using len by (simp add: ds1_def)
      from "1.IH"(1) [OF True rd zero p this]
      obtain ds' where ds': "blank_loop n decPlaces (digitNum + 1) ds1 = Some ds'" "length ds' = n"
        "\<And>i. i < n \<Longrightarrow> ds' ! i = (if digitNum + 1 \<le> i \<and> int i < int n - 1 - int decPlaces \<and> ds1 ! i = 0
                            \<and> (\<forall>j. digitNum + 1 \<le> j \<and> j < i \<longrightarrow> ds1 ! j = 0 \<or> 9 < ds1 ! j)
                         then BLANK else ds1 ! i)"
        by blast
      have "ds' ! i = (if digitNum \<le> i \<and> int i < int n - 1 - int decPlaces \<and> digits ! i = 0
                            \<and> (\<forall>j. digitNum \<le> j \<and> j < i \<longrightarrow> digits ! j = 0 \<or> 9 < digits ! j)
                         then BLANK else digits ! i)" if "i < n" for i
      proof (cases "i = digitNum")
        case True
        then show ?thesis using ds'(3) [OF that] lt zero \<open>int digitNum < int n - 1 - int decPlaces\<close>
          by (auto simp: ds1_def)
      next
        case False
        have a: "ds1 ! i = digits ! i" using False by (simp add: ds1_def)
        have b: "(\<forall>j. digitNum + 1 \<le> j \<and> j < i \<longrightarrow> ds1 ! j = 0 \<or> 9 < ds1 ! j)
             \<longleftrightarrow> (\<forall>j. digitNum + 1 \<le> j \<and> j < i \<longrightarrow> digits ! j = 0 \<or> 9 < digits ! j)"
          by (auto simp: ds1_def)
        have c: "(\<forall>j. digitNum \<le> j \<and> j < i \<longrightarrow> digits ! j = 0 \<or> 9 < digits ! j)
             \<longleftrightarrow> (\<forall>j. digitNum + 1 \<le> j \<and> j < i \<longrightarrow> digits ! j = 0 \<or> 9 < digits ! j)"
          using zero by (intro shift_lower_bound) simp
        show ?thesis using False unfolding ds'(3) [OF that] a b c by auto
      qed
      then show ?thesis using step ds'(1,2) by simp
    next
      case digit
      have step: "blank_loop n decPlaces digitNum digits = Some digits"
        using True digit by (subst blank_loop.simps) (simp add: rd)
      have "digits ! i = (if digitNum \<le> i \<and> int i < int n - 1 - int decPlaces \<and> digits ! i = 0
                            \<and> (\<forall>j. digitNum \<le> j \<and> j < i \<longrightarrow> digits ! j = 0 \<or> 9 < digits ! j)
                         then BLANK else digits ! i)" for i
        using digit by (cases "i = digitNum") (auto simp: not_less)
      then show ?thesis using step len by simp
    next
      case other
      have step: "blank_loop n decPlaces digitNum digits = blank_loop n decPlaces (digitNum + 1) digits"
        using True other by (subst blank_loop.simps) (simp add: rd)
      from "1.IH"(2) [OF True rd other len]
      obtain ds' where ds': "blank_loop n decPlaces (digitNum + 1) digits = Some ds'" "length ds' = n"
        "\<And>i. i < n \<Longrightarrow> ds' ! i = (if digitNum + 1 \<le> i \<and> int i < int n - 1 - int decPlaces \<and> digits ! i = 0
                            \<and> (\<forall>j. digitNum + 1 \<le> j \<and> j < i \<longrightarrow> digits ! j = 0 \<or> 9 < digits ! j)
                         then BLANK else digits ! i)"
        by blast
      have c: "(\<forall>j. digitNum \<le> j \<and> j < i \<longrightarrow> digits ! j = 0 \<or> 9 < digits ! j)
             \<longleftrightarrow> (\<forall>j. digitNum + 1 \<le> j \<and> j < i \<longrightarrow> digits ! j = 0 \<or> 9 < digits ! j)" for i
        using other by (intro shift_lower_bound) (simp add: not_le)
      have "ds' ! i = (if digitNum \<le> i \<and> int i < int n - 1 - int decPlaces \<and> digits ! i = 0
                            \<and> (\<forall>j. digitNum \<le> j \<and> j < i \<longrightarrow> digits ! j = 0 \<or> 9 < digits ! j)
                         then BLANK else digits ! i)" if "i < n" for i
        using other unfolding ds'(3) [OF that] c by (cases "i = digitNum") auto
      then show ?thesis using step ds'(1,2) by simp
    qed
  qed
qed


section \<open>Range check\<close>

lemma bounds_lookup:
  assumes "1 \<le> numDigits s" "numDigits s \<le> 9" "bounds_fit s"
  shows "(case bounds s of Some b \<Rightarrow> Some b | None \<Rightarrow> init_bounds (numDigits s))
           = Some (maxValue (numDigits s), minValue (numDigits s))"
  using assms by (auto simp: bounds_fit_def init_bounds_eq)






text \<open>The content of the \<^verbatim>\<open>digits\<close> array before the call does not matter.\<close>

lemma digit_loop_init:
  assumes "length ds = n" "length ds' = n" "take k ds = take k ds'" "k \<le> n"
  shows "digit_loop n k m ds = digit_loop n k m ds'"
  using assms
proof (induction "n - k" arbitrary: k m ds ds')
  case 0
  then have "k = n" by simp
  then have "ds = ds'" using "0.prems"(1,2,3) by simp
  then show ?case by simp
next
  case (Suc j)
  then have lt: "k < n" by simp
  show ?case
  proof (cases "at powersOf10 (int n - 1 - int k)")
    case None
    then show ?thesis using lt
      by (subst digit_loop.simps, subst (2) digit_loop.simps) simp
  next
    case (Some factor)
    define d :: byte where "d = word_of_int (m sdiv factor)"
    define m' where "m' = long_of (m - long_of (uint d * factor))"
    have p: "put ds k d = Some (ds[k := d])" "put ds' k d = Some (ds'[k := d])"
      using lt Suc.prems(1,2) by (simp_all add: put_def)
    have nth: "ds[k := d] ! k = d" "ds'[k := d] ! k = d" using lt Suc.prems(1,2) by simp_all
    have a: "digit_loop n k m ds = digit_loop n (k + 1) m' (ds[k := d])"
      using lt by (subst digit_loop.simps) (simp add: Some p nth flip: d_def m'_def)
    have b: "digit_loop n k m ds' = digit_loop n (k + 1) m' (ds'[k := d])"
      using lt by (subst digit_loop.simps) (simp add: Some p nth flip: d_def m'_def)
    have "take (k + 1) (ds[k := d]) = take (k + 1) (ds'[k := d])"
      using lt Suc.prems(1,2,3) by (simp add: take_Suc_conv_app_nth)
    then have "digit_loop n (k + 1) m' (ds[k := d]) = digit_loop n (k + 1) m' (ds'[k := d])"
      using Suc.hyps(2) Suc.prems(1,2) lt by (intro Suc.hyps(1)) simp_all
    then show ?thesis using a b by simp
  qed
qed

lemma findDigits_init_irrelevant:
  assumes "length ds = numDigits s" "length ds' = numDigits s"
  shows "findDigits s v dp ds = findDigits s v dp ds'"
proof -
  define n where "n = numDigits s"
  have d: "dash_loop n 0 ds = dash_loop n 0 ds'"
    using dash_loop_eq [of 0 n ds] dash_loop_eq [of 0 n ds'] assms by (simp add: n_def)
  have c: "decompose n v ds = decompose n v ds'"
  proof (cases "v < 0 \<and> n = 0")
    case True
    then show ?thesis using assms by (simp add: decompose_def put_def n_def)
  next
    case False
    have "digit_loop n 0 v ds = digit_loop n 0 v ds'"
      using assms by (intro digit_loop_init) (simp_all add: n_def)
    moreover have "digit_loop n 1 (long_of (- v)) (ds[0 := DASH])
        = digit_loop n 1 (long_of (- v)) (ds'[0 := DASH])" if "n \<noteq> 0"
      using assms that by (intro digit_loop_init) (simp_all add: n_def take_Suc_conv_app_nth)
    ultimately show ?thesis using False assms by (auto simp: decompose_def put_def n_def)
  qed
  show ?thesis using c d by (simp add: findDigits_def n_def Let_def cong: if_cong)
qed

section \<open>The glyph table\<close>

lemma glyph_cases:
  assumes "g \<le> (11::byte)"
  shows "g \<in> {0, 1, 2, 3, 4, 5, 6, 7, 8, 9, 10, 11}"
proof -
  have "unat g \<le> 11" using assms by (simp add: word_le_nat_alt)
  then have "unat g = 0 \<or> unat g = 1 \<or> unat g = 2 \<or> unat g = 3 \<or> unat g = 4 \<or> unat g = 5
      \<or> unat g = 6 \<or> unat g = 7 \<or> unat g = 8 \<or> unat g = 9 \<or> unat g = 10 \<or> unat g = 11"
    by arith
  then have "unat g = unat (0::byte) \<or> unat g = unat (1::byte) \<or> unat g = unat (2::byte)
      \<or> unat g = unat (3::byte) \<or> unat g = unat (4::byte) \<or> unat g = unat (5::byte)
      \<or> unat g = unat (6::byte) \<or> unat g = unat (7::byte) \<or> unat g = unat (8::byte)
      \<or> unat g = unat (9::byte) \<or> unat g = unat (10::byte) \<or> unat g = unat (11::byte)"
    by simp
  then show ?thesis unfolding word_unat_eq_iff [symmetric] by blast
qed

lemma digitCodeMap_lookup:
  assumes "g \<le> (11::byte)"
  shows "at digitCodeMap (uint g) = Some (digitCodeMap ! unat g)"
proof -
  have u: "unat g \<le> 11" using assms by (simp add: word_le_nat_alt)
  have "uint g = int (unat g)" by (rule uint_nat)
  then have "0 \<le> uint g" "uint g < 12" "nat (uint g) = unat g" using u by linarith+
  then show ?thesis by (simp add: at_def digitCodeMap_def)
qed

lemma digitCodeMap_no_point:
  assumes "g \<le> (11::byte)"
  shows "\<not> has_point (digitCodeMap ! unat g)"
  using glyph_cases [OF assms] by (elim insertE emptyE; simp add: has_point_def digitCodeMap_def)

lemma has_point_set: "has_point (c OR 0x80)"
  by (simp add: has_point_def bit_or_iff)


lemma code_loop_nth:
  assumes "n \<le> length digits" "n \<le> length codes" "\<forall>i<n. digits ! i \<le> 11" "k \<le> n"
  shows "\<exists>codes'. code_loop n dp digits k codes = Some codes' \<and> length codes' = length codes \<and>
     (\<forall>i<length codes. codes' ! i =
        (if k \<le> i \<and> i < n
         then (if int i = int n - 1 - int dp then digitCodeMap ! unat (digits ! i) OR 0x80
               else digitCodeMap ! unat (digits ! i))
         else codes ! i))"
  using assms
proof (induction n dp digits k codes rule: code_loop.induct)
  case (1 n decPlaces digits digitNum codes)
  note prems = "1.prems"
  show ?case
  proof (cases "digitNum < n")
    case False
    then show ?thesis using prems by (subst code_loop.simps) auto
  next
    case True
    define g where "g = digits ! digitNum"
    define c where "c = digitCodeMap ! unat g"
    define c' where "c' = (if int digitNum = int n - 1 - int decPlaces then c OR 0x80 else c)"
    define codes1 where "codes1 = codes[digitNum := c]"
    define codes2 where "codes2 = codes[digitNum := c']"
    have g11: "g \<le> 11" using prems(3) True by (simp add: g_def)
    have rd: "at digits (int digitNum) = Some g" using True prems(1) by (simp add: at_def g_def)
    have lk: "at digitCodeMap (uint g) = Some c" using digitCodeMap_lookup [OF g11] by (simp add: c_def)
    have lt: "digitNum < length codes" using True prems(2) by simp
    have p1: "put codes digitNum c = Some codes1" using lt by (simp add: put_def codes1_def)
    have p2: "(if int digitNum = int n - 1 - int decPlaces
               then put codes1 digitNum ((codes1 ! digitNum) OR 0x80) else Some codes1) = Some codes2"
      using lt by (simp add: put_def codes1_def codes2_def c'_def)
    have step: "code_loop n decPlaces digits digitNum codes = code_loop n decPlaces digits (digitNum + 1) codes2"
      using True by (subst code_loop.simps) (simp add: rd lk p1 p2)
    have "\<exists>codes'. code_loop n decPlaces digits (digitNum + 1) codes2 = Some codes' \<and> length codes' = length codes2 \<and>
     (\<forall>i<length codes2. codes' ! i =
        (if digitNum + 1 \<le> i \<and> i < n
         then (if int i = int n - 1 - int decPlaces then digitCodeMap ! unat (digits ! i) OR 0x80
               else digitCodeMap ! unat (digits ! i))
         else codes2 ! i))"
    proof (rule "1.IH" [OF True rd lk p1 p2])
      show "n \<le> length digits" by (rule prems)
      show "n \<le> length codes2" using prems by (simp add: codes2_def)
      show "\<forall>i<n. digits ! i \<le> 11" by (rule prems)
      show "digitNum + 1 \<le> n" using True by simp
    qed
    then obtain codes' where r: "code_loop n decPlaces digits (digitNum + 1) codes2 = Some codes'"
      "length codes' = length codes2"
      "\<And>i. i < length codes2 \<Longrightarrow> codes' ! i =
        (if digitNum + 1 \<le> i \<and> i < n
         then (if int i = int n - 1 - int decPlaces then digitCodeMap ! unat (digits ! i) OR 0x80
               else digitCodeMap ! unat (digits ! i))
         else codes2 ! i)"
      by blast
    have len2: "length codes2 = length codes" by (simp add: codes2_def)
    have "codes' ! i =
        (if digitNum \<le> i \<and> i < n
         then (if int i = int n - 1 - int decPlaces then digitCodeMap ! unat (digits ! i) OR 0x80
               else digitCodeMap ! unat (digits ! i))
         else codes ! i)" if "i < length codes" for i
    proof (cases "i = digitNum")
      case True
      then show ?thesis using r(3) [of i] that \<open>digitNum < n\<close>
        by (simp add: len2 codes2_def c'_def c_def g_def)
    next
      case False
      then show ?thesis using r(3) [of i] that by (auto simp: len2 codes2_def)
    qed
    then show ?thesis using step r(1,2) len2 by simp
  qed
qed

lemma digits_value_digits:
  "digits_value acc gs = Some m \<Longrightarrow> \<forall>g\<in>set gs. g \<le> 9"
  by (induction gs arbitrary: acc) (auto split: if_splits)

lemma le9_not_blank: "g \<le> (9::byte) \<Longrightarrow> not_blank g"
  by (auto simp: not_blank_def BLANK_def)

lemma digits_value_filter:
  assumes "digits_value acc gs = Some m"
  shows "filter not_blank gs = gs"
  using digits_value_digits [OF assms] by (simp add: le9_not_blank)

lemma blank_loop_value:
  assumes "length ds = n" "k \<le> n" "digits_value 0 (drop k ds) = Some m"
  shows "\<exists>ds'. blank_loop n dp k ds = Some ds' \<and> length ds' = n \<and> take k ds' = take k ds
           \<and> digits_value 0 (filter not_blank (drop k ds')) = Some m"
  using assms
proof (induction n dp k ds rule: blank_loop.induct)
  case (1 n decPlaces digitNum digits)
  note prems = "1.prems"
  show ?case
  proof (cases "int digitNum < int n - 1 - int decPlaces")
    case False
    then have "blank_loop n decPlaces digitNum digits = Some digits"
      by (subst blank_loop.simps) simp
    then show ?thesis using prems digits_value_filter [OF prems(3)] by simp
  next
    case True
    then have lt: "digitNum < length digits" using prems by simp
    define d where "d = digits ! digitNum"
    have rd: "at digits (int digitNum) = Some d" using lt by (simp add: at_def d_def)
    have dr: "drop digitNum digits = d # drop (Suc digitNum) digits"
      using Cons_nth_drop_Suc [OF lt] by (simp add: d_def)
    have d9: "d \<le> 9" and rest: "digits_value (uint d) (drop (Suc digitNum) digits) = Some m"
      using prems(3) unfolding dr by (auto split: if_splits)
    show ?thesis
    proof (cases "d = 0")
      case False
      then have "blank_loop n decPlaces digitNum digits = Some digits"
        using True d9 by (subst blank_loop.simps) (simp add: rd)
      then show ?thesis using prems digits_value_filter [OF prems(3)] by simp
    next
      case zero: True
      define ds1 where "ds1 = digits[digitNum := BLANK]"
      have p: "put digits digitNum BLANK = Some ds1" using lt by (simp add: put_def ds1_def)
      have step: "blank_loop n decPlaces digitNum digits = blank_loop n decPlaces (digitNum + 1) ds1"
        using True zero by (subst blank_loop.simps) (simp add: rd p)
      have "\<exists>ds'. blank_loop n decPlaces (digitNum + 1) ds1 = Some ds' \<and> length ds' = n
           \<and> take (digitNum + 1) ds' = take (digitNum + 1) ds1
           \<and> digits_value 0 (filter not_blank (drop (digitNum + 1) ds')) = Some m"
      proof (rule "1.IH"(1) [OF True rd zero p])
        show "length ds1 = n" using prems by (simp add: ds1_def)
        show "digitNum + 1 \<le> n" using lt prems by simp
        show "digits_value 0 (drop (digitNum + 1) ds1) = Some m"
          using rest zero by (simp add: ds1_def)
      qed
      then obtain ds' where r: "blank_loop n decPlaces (digitNum + 1) ds1 = Some ds'" "length ds' = n"
        "take (Suc digitNum) ds' = take (Suc digitNum) ds1"
        "digits_value 0 (filter not_blank (drop (Suc digitNum) ds')) = Some m"
        by auto
      have lt': "digitNum < length ds'" using lt prems r(2) by simp
      have "take (Suc digitNum) ds' ! digitNum = take (Suc digitNum) ds1 ! digitNum"
        by (simp only: r(3))
      then have nth: "ds' ! digitNum = BLANK" using lt by (simp add: ds1_def)
      have "take digitNum (take (Suc digitNum) ds') = take digitNum (take (Suc digitNum) ds1)"
        by (simp only: r(3))
      then have tk: "take digitNum ds' = take digitNum digits" by (simp add: min_def ds1_def)
      have "drop digitNum ds' = BLANK # drop (Suc digitNum) ds'"
        using Cons_nth_drop_Suc [OF lt'] nth by simp
      then have "filter not_blank (drop digitNum ds') = filter not_blank (drop (Suc digitNum) ds')"
        by (simp add: not_blank_def)
      then show ?thesis using step r(1,2,4) tk by simp
    qed
  qed
qed

section \<open>The in-range branch\<close>

lemma decompose_nonneg:
  assumes "n \<le> 9" "length ds = n" "0 \<le> v" "v \<le> maxValue n"
  shows "\<exists>ds'. decompose n v ds = Some ds' \<and> length ds' = n \<and> digits_value 0 ds' = Some v"
proof -
  have "v < 10 ^ (n - 0)" using assms(4) by (simp add: maxValue_def)
  from digit_loop_value [OF _ assms(1,2,3) this]
  obtain ds' where "digit_loop n 0 v ds = Some ds'" "length ds' = n"
    "\<And>acc. digits_value acc (drop 0 ds') = Some (acc * 10 ^ (n - 0) + v)"
    by auto
  then show ?thesis using assms(3) by (simp add: decompose_def)
qed

lemma decompose_neg:
  assumes "n \<le> 9" "length ds = n" "v < 0" "minValue n \<le> v"
  shows "\<exists>ds'. decompose n v ds = Some ds' \<and> length ds' = n \<and> ds' ! 0 = DASH
           \<and> digits_value 0 (drop 1 ds') = Some (- v)"
proof -
  have n1: "1 \<le> n"
  proof (rule ccontr)
    assume "\<not> 1 \<le> n"
    then have "minValue n = 0" by (simp add: minValue_def)
    then show False using assms(3,4) by simp
  qed
  have b: "- v < 10 ^ (n - 1)" using assms(4) by (simp add: minValue_def)
  have "(10::int) ^ (n - 1) \<le> 1000000000" using assms(1) by (intro pow10_le) simp
  then have neg: "long_of (- v) = - v" using b assms(3) by (intro long_of_id) linarith+
  define ds1 where "ds1 = ds[0 := DASH]"
  have p: "put ds 0 DASH = Some ds1" using n1 assms(2) by (simp add: put_def ds1_def)
  have "length ds1 = n" using assms(2) by (simp add: ds1_def)
  from digit_loop_value [OF n1 assms(1) this _ b]
  obtain ds' where r: "digit_loop n 1 (- v) ds1 = Some ds'" "length ds' = n"
    "take 1 ds' = take 1 ds1" "\<And>acc. digits_value acc (drop 1 ds') = Some (acc * 10 ^ (n - 1) + - v)"
    using assms(3) by auto
  have "take 1 ds' ! 0 = take 1 ds1 ! 0" by (simp only: r(3))
  then have "ds' ! 0 = DASH" using n1 assms(2) by (simp add: ds1_def)
  then show ?thesis using assms(3) r(1,2) r(4) [of 0] by (simp add: decompose_def p neg)
qed

lemma blank_loop_skip_dash:
  assumes "1 \<le> length ds" "ds ! 0 = DASH"
  shows "blank_loop n dp 0 ds = blank_loop n dp 1 ds"
proof (cases "int 0 < int n - 1 - int dp")
  case True
  have "ds \<noteq> []" using assms(1) by auto
  then have "at ds (int 0) = Some DASH" using assms(2) by (simp add: at_def)
  then show ?thesis using True
    by (subst blank_loop.simps) (simp add: DASH_def)
next
  case False
  then have "blank_loop n dp 0 ds = Some ds" by (subst blank_loop.simps) simp
  moreover have "blank_loop n dp 1 ds = Some ds" using False by (subst blank_loop.simps) simp
  ultimately show ?thesis by simp
qed

lemma blank_loop_last:
  assumes "length ds = n" "1 \<le> n" "blank_loop n dp k ds = Some ds'"
  shows "ds' ! (n - 1) = ds ! (n - 1)"
  using blank_loop_nth [OF assms(1), of dp k] assms(2,3) by auto

lemma blank_loop_glyphs:
  assumes "length ds = n" "blank_loop n dp k ds = Some ds'" "i < n"
  shows "ds' ! i = BLANK \<or> ds' ! i = ds ! i"
  using blank_loop_nth [OF assms(1), of dp k] assms(2,3) by auto

lemma nth_in_drop:
  assumes "k \<le> i" "i < length xs"
  shows "xs ! i \<in> set (drop k xs)"
proof -
  have "drop k xs ! (i - k) = xs ! i" using assms by simp
  moreover have "i - k < length (drop k xs)" using assms by simp
  ultimately show ?thesis by (metis nth_mem)
qed

lemma decode_glyphs_nonneg:
  assumes "digits_value 0 (filter not_blank ds) = Some v" "filter not_blank ds \<noteq> []"
  shows "decode_glyphs ds = Some v"
proof -
  obtain g rest where f: "filter not_blank ds = g # rest"
    using assms(2) by (cases "filter not_blank ds") auto
  have "g \<le> 9" using assms(1) unfolding f by (auto split: if_splits)
  then have "g \<noteq> DASH" by (auto simp: DASH_def)
  then show ?thesis using assms(1) by (simp add: decode_glyphs_def f)
qed

lemma decode_glyphs_neg:
  assumes "ds = DASH # rest" "digits_value 0 (filter not_blank rest) = Some m"
    "filter not_blank rest \<noteq> []"
  shows "decode_glyphs ds = Some (- m)"
  using assms by (simp add: decode_glyphs_def not_blank_def DASH_def BLANK_def)

lemma findDigits_in_range:
  assumes n: "1 \<le> numDigits s" "numDigits s \<le> 9" "length ds = numDigits s" "bounds_fit s"
      and v: "minValue (numDigits s) \<le> v" "v \<le> maxValue (numDigits s)"
  shows "\<exists>pre ds'. decompose (numDigits s) v ds = Some pre \<and> length pre = numDigits s
           \<and> blank_loop (numDigits s) dp 0 pre = Some ds'
           \<and> findDigits s v dp ds =
                Some (ds', s\<lparr>bounds := Some (maxValue (numDigits s), minValue (numDigits s))\<rparr>)
           \<and> length ds' = numDigits s \<and> decode_glyphs ds' = Some v
           \<and> (\<forall>i<numDigits s. ds' ! i \<le> 11) \<and> (v < 0 \<longrightarrow> pre ! 0 = DASH \<and> ds' ! 0 = DASH)"
proof -
  define n where "n = numDigits s"
  have fd: "findDigits s v dp ds = Some (ds', s\<lparr>bounds := Some (maxValue n, minValue n)\<rparr>)"
    if "decompose n v ds = Some pre" "blank_loop n dp 0 pre = Some ds'" for pre ds'
    using v that by (simp add: findDigits_def bounds_lookup [OF n(1,2,4)] flip: n_def)
  show ?thesis
  proof (cases "v < 0")
    case False
    then have v0: "0 \<le> v" by simp
    from decompose_nonneg [OF n(2,3) v0 v(2)]
    obtain pre where pre: "decompose n v ds = Some pre" "length pre = n" "digits_value 0 pre = Some v"
      by (auto simp: n_def)
    from blank_loop_value [of pre n 0 v dp] pre
    obtain ds' where r: "blank_loop n dp 0 pre = Some ds'" "length ds' = n"
      "digits_value 0 (filter not_blank ds') = Some v"
      by auto
    have n1: "1 \<le> n" using n(1) by (simp add: n_def)
    have last: "ds' ! (n - 1) = pre ! (n - 1)" by (rule blank_loop_last [OF pre(2) n1 r(1)])
    have d9: "g \<le> 9" if "g \<in> set pre" for g using digits_value_digits [OF pre(3)] that by blast
    have "pre ! (n - 1) \<in> set pre" using pre(2) n1 by simp
    then have "not_blank (ds' ! (n - 1))" using d9 last by (simp add: le9_not_blank)
    moreover have "ds' ! (n - 1) \<in> set ds'" using r(2) n1 by simp
    ultimately have ne: "filter not_blank ds' \<noteq> []"
      unfolding filter_empty_conv by blast
    have dec: "decode_glyphs ds' = Some v" by (rule decode_glyphs_nonneg [OF r(3) ne])
    have le: "ds' ! i \<le> 11" if "i < n" for i
    proof -
      have "pre ! i \<le> 9" using d9 that pre(2) by simp
      then have "pre ! i \<le> 11" by (rule order_trans) simp
      then show ?thesis using blank_loop_glyphs [OF pre(2) r(1) that] by (auto simp: BLANK_def)
    qed
    show ?thesis using fd [OF pre(1) r(1)] pre r dec le False by (auto simp: n_def)
  next
    case True
    from decompose_neg [OF n(2,3) True v(1)]
    obtain pre where pre: "decompose n v ds = Some pre" "length pre = n" "pre ! 0 = DASH"
      "digits_value 0 (drop 1 pre) = Some (- v)"
      by (auto simp: n_def)
    have n2: "2 \<le> n"
    proof (rule ccontr)
      assume "\<not> 2 \<le> n"
      then have "n = 1" using n(1) by (simp add: n_def)
      then have "minValue n = 0" by (simp add: minValue_def)
      then show False using True v(1) by (simp add: n_def)
    qed
    have skip: "blank_loop n dp 0 pre = blank_loop n dp 1 pre"
      using n2 pre(2,3) by (intro blank_loop_skip_dash) auto
    from blank_loop_value [of pre n 1 "- v" dp] pre n2
    obtain ds' where r: "blank_loop n dp 1 pre = Some ds'" "length ds' = n"
      "take 1 ds' = take 1 pre" "digits_value 0 (filter not_blank (drop 1 ds')) = Some (- v)"
      by auto
    have r0: "blank_loop n dp 0 pre = Some ds'" using skip r(1) by simp
    have "take 1 ds' ! 0 = take 1 pre ! 0" by (simp only: r(3))
    then have h0: "ds' ! 0 = DASH" using pre(3) by simp
    have "ds' \<noteq> []" using r(2) n2 by auto
    then have shape: "ds' = DASH # drop 1 ds'" using h0 by (cases ds') auto
    have n1: "1 \<le> n" using n2 by simp
    have last: "ds' ! (n - 1) = pre ! (n - 1)" by (rule blank_loop_last [OF pre(2) n1 r0])
    have d9: "g \<le> 9" if "g \<in> set (drop 1 pre)" for g
      using digits_value_digits [OF pre(4)] that by blast
    have "pre ! (n - 1) \<in> set (drop 1 pre)" using pre(2) n2 by (intro nth_in_drop) auto
    then have "not_blank (ds' ! (n - 1))" using d9 last by (simp add: le9_not_blank)
    moreover have "ds' ! (n - 1) \<in> set (drop 1 ds')" using r(2) n2 by (intro nth_in_drop) auto
    ultimately have ne: "filter not_blank (drop 1 ds') \<noteq> []"
      unfolding filter_empty_conv by blast
    have "decode_glyphs ds' = Some (- (- v))" by (rule decode_glyphs_neg [OF shape r(4) ne])
    then have dec: "decode_glyphs ds' = Some v" by simp
    have le: "ds' ! i \<le> 11" if "i < n" for i
    proof (cases "i = 0")
      case True
      then show ?thesis using h0 by (simp add: DASH_def)
    next
      case False
      then have "pre ! i \<in> set (drop 1 pre)" using that pre(2) by (intro nth_in_drop) auto
      then have "pre ! i \<le> 9" by (rule d9)
      then have "pre ! i \<le> 11" by (rule order_trans) simp
      then show ?thesis using blank_loop_glyphs [OF pre(2) r0 that] by (auto simp: BLANK_def)
    qed
    show ?thesis using fd [OF pre(1) r0] pre r0 r(2) dec le h0 by (auto simp: n_def)
  qed
qed


section \<open>Round trip and decimal point\<close>

lemma setDigitCodes_nth:
  assumes "numDigits s \<le> length digits" "numDigits s \<le> length (digitCodes s)"
    "\<forall>i<numDigits s. digits ! i \<le> 11"
  shows "\<exists>codes'. setDigitCodes s digits dp = Some (s\<lparr>digitCodes := codes'\<rparr>)
     \<and> length codes' = length (digitCodes s)
     \<and> (\<forall>i<numDigits s. codes' ! i =
          (if int i = int (numDigits s) - 1 - int dp then digitCodeMap ! unat (digits ! i) OR 0x80
           else digitCodeMap ! unat (digits ! i)))"
proof -
  from code_loop_nth [OF assms, of 0 dp]
  obtain codes' where r: "code_loop (numDigits s) dp digits 0 (digitCodes s) = Some codes'"
    "length codes' = length (digitCodes s)"
    "\<And>i. i < length (digitCodes s) \<Longrightarrow> codes' ! i =
        (if 0 \<le> i \<and> i < numDigits s
         then (if int i = int (numDigits s) - 1 - int dp then digitCodeMap ! unat (digits ! i) OR 0x80
               else digitCodeMap ! unat (digits ! i))
         else digitCodes s ! i)"
    by auto
  have "codes' ! i =
          (if int i = int (numDigits s) - 1 - int dp then digitCodeMap ! unat (digits ! i) OR 0x80
           else digitCodeMap ! unat (digits ! i))" if "i < numDigits s" for i
    using r(3) [of i] that assms(2) by simp
  then have b: "\<forall>i<numDigits s. codes' ! i =
          (if int i = int (numDigits s) - 1 - int dp then digitCodeMap ! unat (digits ! i) OR 0x80
           else digitCodeMap ! unat (digits ! i))" by blast
  have a: "setDigitCodes s digits dp = Some (s\<lparr>digitCodes := codes'\<rparr>)"
    using r(1) by (simp add: setDigitCodes_def)
  show ?thesis using a r(2) b by blast
qed



lemma point_bits_nth:
  assumes "numDigits s \<le> length digits" "numDigits s \<le> length (digitCodes s)"
    "\<forall>i<numDigits s. digits ! i \<le> 11"
  shows "\<exists>s'. setDigitCodes s digits dp = Some s' \<and> numDigits s' = numDigits s
           \<and> length (point_bits s') = numDigits s
           \<and> (\<forall>i<numDigits s. point_bits s' ! i \<longleftrightarrow> int i = int (numDigits s) - 1 - int dp)"
proof -
  from setDigitCodes_nth [OF assms, of dp]
  obtain codes' where r: "setDigitCodes s digits dp = Some (s\<lparr>digitCodes := codes'\<rparr>)"
    "length codes' = length (digitCodes s)"
    "\<And>i. i < numDigits s \<Longrightarrow> codes' ! i =
          (if int i = int (numDigits s) - 1 - int dp then digitCodeMap ! unat (digits ! i) OR 0x80
           else digitCodeMap ! unat (digits ! i))"
    by blast
  define s' where "s' = s\<lparr>digitCodes := codes'\<rparr>"
  have len: "length (point_bits s') = numDigits s"
    using r(2) assms(2) by (simp add: point_bits_def s'_def)
  have "point_bits s' ! i \<longleftrightarrow> int i = int (numDigits s) - 1 - int dp" if "i < numDigits s" for i
  proof -
    have "point_bits s' ! i = has_point (codes' ! i)"
      using that r(2) assms(2) by (simp add: point_bits_def s'_def)
    moreover have "digits ! i \<le> 11" using assms(3) that by blast
    ultimately show ?thesis
      using r(3) [OF that] digitCodeMap_no_point [of "digits ! i"] has_point_set by simp
  qed
  then have "\<forall>i<numDigits s. point_bits s' ! i \<longleftrightarrow> int i = int (numDigits s) - 1 - int dp"
    by blast
  moreover have "numDigits s' = numDigits s" by (simp add: s'_def)
  ultimately show ?thesis using r(1) len unfolding s'_def by blast
qed

lemma glyphs_nth:
  assumes "n \<le> length digits" "\<forall>g\<in>set (take n digits). g \<le> (11::byte)"
  shows "\<forall>i<n. digits ! i \<le> 11"
proof (intro allI impI)
  fix i assume i: "i < n"
  then have "take n digits ! i \<in> set (take n digits)" using assms(1) by (intro nth_mem) simp
  then show "digits ! i \<le> 11" using assms(2) i by simp
qed

text \<open>
  Claim C2, amended. For every sequence of glyphs, \<open>setDigitCodes\<close> sets the decimal-point
  bit on exactly one segment code, the one at index \<open>numDigits - 1 - decPlaces\<close>, whatever
  the glyph there, when \<open>decPlaces\<close> is below the digit count (with \<open>decPlaces = 0\<close> this
  is the last position); when \<open>decPlaces\<close> reaches the digit count no code carries it.
\<close>

theorem setDigitCodes_point:
  assumes "numDigits s \<le> length digits" "numDigits s \<le> length (digitCodes s)"
    and "\<forall>g\<in>set (take (numDigits s) digits). g \<le> 11"
  shows "\<exists>s'. setDigitCodes s digits decPlaces = Some s' \<and> numDigits s' = numDigits s
           \<and> (decPlaces < numDigits s \<longrightarrow>
                 point_bits s' = (replicate (numDigits s) False)[numDigits s - 1 - decPlaces := True])
           \<and> (numDigits s \<le> decPlaces \<longrightarrow> point_bits s' = replicate (numDigits s) False)"
proof -
  define n where "n = numDigits s"
  from point_bits_nth [OF assms(1,2) glyphs_nth [OF assms(1,3)], of decPlaces]
  obtain s' where r: "setDigitCodes s digits decPlaces = Some s'" "numDigits s' = n"
    "length (point_bits s') = n"
    "\<And>i. i < n \<Longrightarrow> point_bits s' ! i \<longleftrightarrow> int i = int n - 1 - int decPlaces"
    unfolding n_def by blast
  have one: "point_bits s' = (replicate n False)[n - 1 - decPlaces := True]" if "decPlaces < n"
  proof (rule nth_equalityI)
    show "length (point_bits s') = length ((replicate n False)[n - 1 - decPlaces := True])"
      using r(3) by simp
    fix i assume "i < length (point_bits s')"
    then have i: "i < n" using r(3) by simp
    have "int i = int n - 1 - int decPlaces \<longleftrightarrow> i = n - 1 - decPlaces" using that by auto
    then show "point_bits s' ! i = (replicate n False)[n - 1 - decPlaces := True] ! i"
      using r(4) [OF i] i by (auto simp: nth_list_update)
  qed
  have none: "point_bits s' = replicate n False" if "n \<le> decPlaces"
  proof (rule nth_equalityI)
    show "length (point_bits s') = length (replicate n False)" using r(3) by simp
    fix i assume "i < length (point_bits s')"
    then have i: "i < n" using r(3) by simp
    have "int i \<noteq> int n - 1 - int decPlaces" using that by auto
    then show "point_bits s' ! i = replicate n False ! i" using r(4) [OF i] i by simp
  qed
  show ?thesis using r(1,2) one none unfolding n_def by blast
qed

theorem setDigitCodes_point_witness:
  "(\<exists>s'. setDigitCodes four_digits [BLANK, BLANK, BLANK, 7] 0 = Some s'
      \<and> point_bits s' = [False, False, False, True])
   \<and> (\<exists>s'. setDigitCodes four_digits [DASH, 0, 4, 2] 1 = Some s'
      \<and> point_bits s' = [False, False, True, False])
   \<and> (\<exists>s'. setDigitCodes four_digits [BLANK, BLANK, BLANK, 7] 4 = Some s'
      \<and> point_bits s' = [False, False, False, False])"
proof -
  have eq: "(replicate 4 False)[3 := True] = [False, False, False, True]"
    "(replicate 4 False)[2 := True] = [False, False, True, False]"
    "replicate 4 False = [False, False, False, False]"
    by (simp_all add: numeral_eq_Suc)
  show ?thesis
    using setDigitCodes_point [of four_digits "[BLANK, BLANK, BLANK, 7]" 0]
      setDigitCodes_point [of four_digits "[DASH, 0, 4, 2]" 1]
      setDigitCodes_point [of four_digits "[BLANK, BLANK, BLANK, 7]" 4]
    by (auto simp: four_digits_def BLANK_def DASH_def eq)
qed

text \<open>
  Claim C2 as stated fails for \<open>decPlaces = 4\<close> on four digits: no code has the
  decimal-point bit.
\<close>

theorem no_point_beyond_digit_count:
  "map_option point_bits (setDigitCodes four_digits [1, 2, 3, 4] 4) = Some [False, False, False, False]"
  by (simp add: setDigitCodes_def four_digits_def point_bits_def has_point_def code_loop.simps
      at_def put_def digitCodeMap_def)

section \<open>Sign and blanking\<close>




text \<open>
  Claim C5, amended. For an in-range value, with \<open>pre\<close> the glyphs before the blanking
  pass: a position is set to BLANK exactly when its index is below
  \<open>numDigits - 1 - decPlaces\<close>, its glyph is 0 and every glyph before it is 0 or above 9;
  so the scan stops at the first glyph between 1 and 9, positions from the boundary on are
  never blanked, and the only glyph above 9 is the DASH a negative value has at position 0,
  which does not stop the scan.
\<close>

theorem findDigits_blanking:
  assumes "1 \<le> numDigits s" "numDigits s \<le> 9" "length digits = numDigits s" "bounds_fit s"
    and "minValue (numDigits s) \<le> v" "v \<le> maxValue (numDigits s)"
  shows "\<exists>pre ds' s'. decompose (numDigits s) v digits = Some pre
           \<and> findDigits s v decPlaces digits = Some (ds', s')
           \<and> length pre = numDigits s \<and> length ds' = numDigits s
           \<and> (\<forall>i<numDigits s. ds' ! i =
                 (if int i < int (numDigits s) - 1 - int decPlaces \<and> pre ! i = 0
                       \<and> (\<forall>j<i. pre ! j = 0 \<or> 9 < pre ! j)
                  then BLANK else pre ! i))
           \<and> (\<forall>j<numDigits s. 9 < pre ! j \<longrightarrow> j = 0 \<and> v < 0 \<and> pre ! j = DASH)"
proof -
  define n where "n = numDigits s"
  from findDigits_in_range [OF assms, of decPlaces]
  obtain pre ds' s' where r: "decompose n v digits = Some pre" "length pre = n"
    "blank_loop n decPlaces 0 pre = Some ds'" "findDigits s v decPlaces digits = Some (ds', s')"
    "length ds' = n" "v < 0 \<longrightarrow> pre ! 0 = DASH"
    unfolding n_def by blast
  from blank_loop_nth [OF r(2), of decPlaces 0] r(3)
  have b: "\<forall>i<n. ds' ! i =
                 (if int i < int n - 1 - int decPlaces \<and> pre ! i = 0
                       \<and> (\<forall>j<i. pre ! j = 0 \<or> 9 < pre ! j)
                  then BLANK else pre ! i)"
    by simp
  have d: "\<forall>j<n. 9 < pre ! j \<longrightarrow> j = 0 \<and> v < 0 \<and> pre ! j = DASH"
  proof (cases "v < 0")
    case False
    then have "0 \<le> v" by simp
    from decompose_nonneg [OF assms(2,3) this assms(6)] r(1)
    have "digits_value 0 pre = Some v" by (simp add: n_def)
    then have "\<forall>g\<in>set pre. g \<le> 9" by (rule digits_value_digits)
    then have "\<forall>j<n. pre ! j \<le> 9" using r(2) by simp
    then show ?thesis by (auto simp: not_less [symmetric])
  next
    case True
    from decompose_neg [OF assms(2,3) True assms(5)] r(1)
    have "digits_value 0 (drop 1 pre) = Some (- v)" by (simp add: n_def)
    then have g: "\<forall>g\<in>set (drop 1 pre). g \<le> 9" by (rule digits_value_digits)
    have "pre ! j \<le> 9" if "j < n" "j \<noteq> 0" for j
    proof -
      have "pre ! j \<in> set (drop 1 pre)" using that r(2) by (intro nth_in_drop) auto
      then show ?thesis using g by blast
    qed
    then show ?thesis using True r(6) by (auto simp: not_less [symmetric])
  qed
  show ?thesis using r(1,2,4,5) b d unfolding n_def by blast
qed

theorem findDigits_blanking_witness:
  "\<exists>pre ds' s'. decompose 4 (- 5) [0, 0, 0, 0] = Some pre
      \<and> findDigits four_digits (- 5) 0 [0, 0, 0, 0] = Some (ds', s')
      \<and> length pre = 4 \<and> length ds' = 4
      \<and> (\<forall>i<4. ds' ! i = (if int i < 3 \<and> pre ! i = 0 \<and> (\<forall>j<i. pre ! j = 0 \<or> 9 < pre ! j)
                             then BLANK else pre ! i))
      \<and> (\<forall>j<4. 9 < pre ! j \<longrightarrow> j = 0 \<and> pre ! j = DASH)"
  using findDigits_blanking [of four_digits "[0, 0, 0, 0]" "- 5" 0]
  by (simp add: four_digits_def bounds_fit_def minValue_def maxValue_def)

text \<open>
  Claim C5 as stated fails for -5 on four digits: the DASH at position 0 is a nonzero glyph,
  yet the zeros after it are blanked, where the pass as worded would stop.
\<close>

theorem dash_does_not_stop_blanking:
  "decompose 4 (- 5) [0, 0, 0, 0] = Some [DASH, 0, 0, 5]
   \<and> map_option fst (findDigits four_digits (- 5) 0 [0, 0, 0, 0]) = Some [DASH, BLANK, BLANK, 5]
   \<and> blanking_as_worded 4 0 0 [DASH, 0, 0, 5] = [DASH, 0, 0, 5]
   \<and> map_option fst (findDigits four_digits (- 5) 0 [0, 0, 0, 0])
       \<noteq> map_option (blanking_as_worded 4 0 0) (decompose 4 (- 5) [0, 0, 0, 0])"
  by (simp add: findDigits_def four_digits_def init_bounds_def at_def put_def powersOf10_def
      long_of_def decompose_def digit_loop.simps blank_loop.simps BLANK_def DASH_def)

section \<open>Counting loops\<close>

lemma for_loop_emits:
  assumes "\<And>j es. i \<le> j \<Longrightarrow> j < n \<Longrightarrow> body j (s\<lparr>io := es\<rparr>) = Some (s\<lparr>io := es @ ev j\<rparr>)"
    and "i \<le> n"
  shows "for_loop i n body (s\<lparr>io := es\<rparr>) = Some (s\<lparr>io := es @ concat (map ev [i..<n])\<rparr>)"
  using assms
proof (induction "n - i" arbitrary: i es)
  case 0
  then have "i = n" by simp
  then show ?case by (subst for_loop.simps) simp
next
  case (Suc k)
  then have lt: "i < n" by simp
  have b: "body i (s\<lparr>io := es\<rparr>) = Some (s\<lparr>io := es @ ev i\<rparr>)"
    using Suc.prems(1) [of i es] lt by simp
  have "for_loop (i + 1) n body (s\<lparr>io := es @ ev i\<rparr>)
          = Some (s\<lparr>io := (es @ ev i) @ concat (map ev [i + 1..<n])\<rparr>)"
  proof (rule Suc.hyps(1))
    show "k = n - (i + 1)" using Suc.hyps(2) by simp
    show "body j (s\<lparr>io := es'\<rparr>) = Some (s\<lparr>io := es' @ ev j\<rparr>)" if "i + 1 \<le> j" "j < n" for j es'
      using Suc.prems(1) [of j es'] that by simp
    show "i + 1 \<le> n" using lt by simp
  qed
  moreover have "[i..<n] = i # [i + 1..<n]" using lt by (simp add: upt_conv_Cons)
  ultimately show ?case using lt b by (subst for_loop.simps) simp
qed

lemma for_loop_emits0:
  assumes "\<And>j es. j < n \<Longrightarrow> body j (s\<lparr>io := es\<rparr>) = Some (s\<lparr>io := es @ ev j\<rparr>)"
  shows "for_loop 0 n body s = Some (s\<lparr>io := io s @ concat (map ev [0..<n])\<rparr>)"
  using for_loop_emits [of 0 n body s ev "io s"] assms by simp

lemma for_loop_preserves:
  assumes "for_loop i n body s = Some s'" "P s" "\<And>j t t'. body j t = Some t' \<Longrightarrow> P t \<Longrightarrow> P t'"
  shows "P s'"
  using assms
proof (induction i n body s rule: for_loop.induct)
  case (1 i n body s)
  show ?case
  proof (cases "i < n")
    case False
    then show ?thesis using "1.prems"(1,2) by (subst (asm) for_loop.simps) simp
  next
    case True
    then obtain t where t: "body i s = Some t" "for_loop (i + 1) n body t = Some s'"
      using "1.prems"(1) by (subst (asm) for_loop.simps) (auto split: bind_splits)
    have "P t" using "1.prems"(3) [OF t(1) "1.prems"(2)] .
    show ?thesis
    proof (rule "1.IH" [OF True t(1) t(2) \<open>P t\<close>])
      show "P u'" if "body j u = Some u'" "P u" for j u u'
        using "1.prems"(3) [OF that] .
    qed
  qed
qed

lemma at_nth: "i < length xs \<Longrightarrow> at xs (int i) = Some (xs ! i)"
  by (simp add: at_def)

section \<open>The refresh engine\<close>

lemma digit_off_loop:
  assumes "numDigits s \<le> length (digitPins s)"
  shows "for_loop 0 (numDigits s) (\<lambda>digit s. do {
            pin \<leftarrow> at (digitPins s) (int digit);
            Some (digitalWrite pin (digitOff s) s)
          }) s
     = Some (s\<lparr>io := io s @ [DigitalWrite (digitPins s ! d) (digitOff s). d \<leftarrow> [0..<numDigits s]]\<rparr>)"
proof -
  have "for_loop 0 (numDigits s) (\<lambda>digit s. do {
            pin \<leftarrow> at (digitPins s) (int digit);
            Some (digitalWrite pin (digitOff s) s)
          }) s
     = Some (s\<lparr>io := io s @ concat (map (\<lambda>d. [DigitalWrite (digitPins s ! d) (digitOff s)]) [0..<numDigits s])\<rparr>)"
    using assms by (intro for_loop_emits0) (simp add: at_nth digitalWrite_def)
  then show ?thesis by simp
qed

lemma segment_off_loop:
  assumes "length (segmentPins s) = 8"
  shows "for_loop 0 8 (\<lambda>segment s. do {
            pin \<leftarrow> at (segmentPins s) (int segment);
            Some (digitalWrite pin (segmentOff s) s)
          }) s
     = Some (s\<lparr>io := io s @ [DigitalWrite (segmentPins s ! g) (segmentOff s). g \<leftarrow> [0..<8]]\<rparr>)"
proof -
  have "for_loop 0 8 (\<lambda>segment s. do {
            pin \<leftarrow> at (segmentPins s) (int segment);
            Some (digitalWrite pin (segmentOff s) s)
          }) s
     = Some (s\<lparr>io := io s @ concat (map (\<lambda>g. [DigitalWrite (segmentPins s ! g) (segmentOff s)]) [0..<8])\<rparr>)"
    using assms by (intro for_loop_emits0) (simp add: at_nth digitalWrite_def)
  then show ?thesis by simp
qed

lemma clearDisplay_eq:
  assumes "well_formed s"
  shows "clearDisplay s = Some (s\<lparr>io := io s
           @ [DigitalWrite (digitPins s ! d) (digitOff s). d \<leftarrow> [0..<numDigits s]]
           @ [DigitalWrite (segmentPins s ! g) (segmentOff s). g \<leftarrow> [0..<8]]\<rparr>)"
proof -
  define s1 where "s1 = s\<lparr>io := io s @ [DigitalWrite (digitPins s ! d) (digitOff s). d \<leftarrow> [0..<numDigits s]]\<rparr>"
  have a: "for_loop 0 (numDigits s) (\<lambda>digit s. do {
            pin \<leftarrow> at (digitPins s) (int digit);
            Some (digitalWrite pin (digitOff s) s)
          }) s = Some s1"
    unfolding s1_def using assms by (intro digit_off_loop) (simp add: well_formed_def)
  have "length (segmentPins s1) = 8" using assms by (simp add: s1_def well_formed_def)
  from segment_off_loop [OF this]
  show ?thesis by (simp add: clearDisplay_def a S7_SEGMENTS_def) (simp add: s1_def)
qed

lemma lightsOff_eq:
  assumes "well_formed s" "step < REFRESH_STEPS r s"
  shows "lightsOff r step s = Some (s\<lparr>io := io s @ off_writes r step s\<rparr>)"
proof (cases r)
  case ON_DIGITS
  then have st: "step < length (segmentPins s)" using assms by (simp add: REFRESH_STEPS_def S7_SEGMENTS_def well_formed_def)
  define s1 where "s1 = digitalWrite (segmentPins s ! step) (segmentOff s) s"
  have "numDigits s1 \<le> length (digitPins s1)" using assms(1) by (simp add: s1_def digitalWrite_def well_formed_def)
  from digit_off_loop [OF this]
  show ?thesis using ON_DIGITS
    by (simp add: lightsOff_def at_nth [OF st] off_writes_def flip: s1_def) (simp add: s1_def digitalWrite_def)
next
  case ON_SEGMENTS
  then have st: "step < length (digitPins s)" using assms by (simp add: REFRESH_STEPS_def well_formed_def)
  define s1 where "s1 = digitalWrite (digitPins s ! step) (digitOff s) s"
  have "length (segmentPins s1) = 8" using assms(1) by (simp add: s1_def digitalWrite_def well_formed_def)
  from segment_off_loop [OF this]
  show ?thesis using ON_SEGMENTS
    by (simp add: lightsOff_def at_nth [OF st] off_writes_def SEGMENTS_def flip: s1_def) (simp add: s1_def digitalWrite_def)
qed

lemma lightsOn_eq:
  assumes "well_formed s" "step < REFRESH_STEPS r s"
  shows "lightsOn r step s = Some (s\<lparr>io := io s @ on_writes r step s\<rparr>)"
proof (cases r)
  case ON_DIGITS
  then have st: "step < length (segmentPins s)" using assms by (simp add: REFRESH_STEPS_def S7_SEGMENTS_def well_formed_def)
  define s1 where "s1 = s\<lparr>io := io s @ [DigitalWrite (digitPins s ! d) (digitOn s). d \<leftarrow> [0..<numDigits s], bit (digitCodes s ! d) step]\<rparr>"
  have "for_loop 0 (numDigits s) (\<lambda>digit s. do {
              code \<leftarrow> at (digitCodes s) (int digit);
              if code AND push_bit step 1 \<noteq> 0 then do {
                pin \<leftarrow> at (digitPins s) (int digit);
                Some (digitalWrite pin (digitOn s) s)
              } else Some s
            }) s = Some s1"
    unfolding s1_def using assms(1)
    by (intro for_loop_emits0) (simp add: at_nth digitalWrite_def well_formed_def and_exp_eq_0_iff_not_bit)
  then show ?thesis using ON_DIGITS st
    by (simp add: lightsOn_def on_writes_def) (simp add: s1_def at_nth digitalWrite_def)
next
  case ON_SEGMENTS
  then have st: "step < length (digitPins s)" "step < length (digitCodes s)"
    using assms by (simp_all add: REFRESH_STEPS_def well_formed_def)
  define s1 where "s1 = s\<lparr>io := io s @ [DigitalWrite (segmentPins s ! g) (segmentOn s). g \<leftarrow> [0..<8], bit (digitCodes s ! step) g]\<rparr>"
  have "for_loop 0 8 (\<lambda>segment t.
              if digitCodes s ! step AND push_bit segment 1 \<noteq> 0 then do {
                pin \<leftarrow> at (segmentPins t) (int segment);
                Some (digitalWrite pin (segmentOn t) t)
              } else Some t) s = Some s1"
    unfolding s1_def using assms(1)
    by (intro for_loop_emits0) (simp add: at_nth digitalWrite_def well_formed_def and_exp_eq_0_iff_not_bit)
  then show ?thesis using ON_SEGMENTS st
    by (simp add: lightsOn_def on_writes_def SEGMENTS_def at_nth) (simp add: s1_def at_nth digitalWrite_def)
qed

lemma steps_small:
  assumes "well_formed s"
  shows "REFRESH_STEPS r s < 256"
  using assms by (cases r) (simp_all add: REFRESH_STEPS_def S7_SEGMENTS_def well_formed_def)

lemma on_writes_io [simp]: "on_writes r c (s\<lparr>io := es\<rparr>) = on_writes r c s"
  by (cases r) (simp_all add: on_writes_def cong: if_cong)

lemma on_writes_common [simp]: "on_writes r c (s\<lparr>common := k\<rparr>) = on_writes r c s"
  by (cases r) (simp_all add: on_writes_def cong: if_cong)

lemma off_writes_io [simp]: "off_writes r c (s\<lparr>io := es\<rparr>) = off_writes r c s"
  by (cases r) (simp_all add: off_writes_def)

lemma off_writes_common [simp]: "off_writes r c (s\<lparr>common := k\<rparr>) = off_writes r c s"
  by (cases r) (simp_all add: off_writes_def)

lemma well_formed_frame [simp]:
  "well_formed (s\<lparr>io := es\<rparr>) = well_formed s"
  "well_formed (s\<lparr>common := k\<rparr>) = well_formed s"
  by (simp_all add: well_formed_def)

lemma REFRESH_STEPS_io [simp]: "REFRESH_STEPS r (s\<lparr>io := es\<rparr>) = REFRESH_STEPS r s"
  by (cases r) (simp_all add: REFRESH_STEPS_def)

lemma REFRESH_STEPS_common [simp]: "REFRESH_STEPS r (s\<lparr>common := k\<rparr>) = REFRESH_STEPS r s"
  by (cases r) (simp_all add: REFRESH_STEPS_def)

lemma next_step:
  assumes "c < n" "n < 256"
  shows "(if (c + 1) mod 256 = n then 0 else (c + 1) mod 256) = (c + 1) mod (n::nat)"
proof -
  have "(c + 1) mod 256 = c + 1" using assms by simp
  then show ?thesis using assms by (auto simp: mod_if)
qed

lemma updateDisplay_eq:
  assumes "well_formed s" "common s < REFRESH_STEPS r s"
  shows "updateDisplay r s =
           Some (s\<lparr>common := (common s + 1) mod REFRESH_STEPS r s,
                   io := io s @ off_writes r (common s) s
                              @ on_writes r ((common s + 1) mod REFRESH_STEPS r s) s\<rparr>)"
proof -
  define n where "n = REFRESH_STEPS r s"
  define c' where "c' = (common s + 1) mod n"
  define s1 where "s1 = s\<lparr>io := io s @ off_writes r (common s) s\<rparr>"
  define s2 where "s2 = s1\<lparr>common := c'\<rparr>"
  have off: "lightsOff r (common s) s = Some s1"
    unfolding s1_def by (rule lightsOff_eq [OF assms])
  have nx: "(if (common s + 1) mod 256 = n then 0 else (common s + 1) mod 256) = c'"
    unfolding c'_def using assms(2) steps_small [OF assms(1), of r] by (intro next_step) (simp_all add: n_def)
  have "c' < n" using assms(2) by (simp add: c'_def n_def)
  then have "lightsOn r c' s2 = Some (s2\<lparr>io := io s2 @ on_writes r c' s2\<rparr>)"
    using assms(1) by (intro lightsOn_eq) (simp_all add: s2_def s1_def n_def)
  then have on: "lightsOn r c' s2 = Some (s\<lparr>common := c', io := io s @ off_writes r (common s) s @ on_writes r c' s\<rparr>)"
    by (simp add: s2_def s1_def)
  have "updateDisplay r s = lightsOn r c' s2"
  proof (cases "(common s + 1) mod 256 = n")
    case True
    then have "c' = 0" using nx by simp
    then show ?thesis using True by (simp add: updateDisplay_def off Let_def s1_def s2_def n_def)
  next
    case False
    then have "c' = (common s + 1) mod 256" using nx by simp
    then show ?thesis using False by (simp add: updateDisplay_def off Let_def s1_def s2_def n_def)
  qed
  then show ?thesis using on by (simp add: c'_def n_def)
qed




text \<open>
  Claim C7. Whatever the segment codes, the cursor and the drive strategy,
  \<open>clearDisplay\<close> writes the off level to each of the \<open>numDigits\<close> digit lines and
  then to each of the 8 segment lines, and nothing else.
\<close>

theorem clearDisplay_writes_off:
  assumes "well_formed s"
  shows "\<exists>s'. clearDisplay s = Some s'
           \<and> io s' = io s
                @ [DigitalWrite (digitPins s ! d) (digitOff s). d \<leftarrow> [0..<numDigits s]]
                @ [DigitalWrite (segmentPins s ! g) (segmentOff s). g \<leftarrow> [0..<8]]"
  using clearDisplay_eq [OF assms] by simp

theorem clearDisplay_writes_off_witness:
  "\<exists>s'. clearDisplay showing_1234 = Some s'
      \<and> io s' = [DigitalWrite 2 HIGH, DigitalWrite 3 HIGH, DigitalWrite 4 HIGH, DigitalWrite 5 HIGH,
                  DigitalWrite 6 LOW, DigitalWrite 7 LOW, DigitalWrite 8 LOW, DigitalWrite 9 LOW,
                  DigitalWrite 10 LOW, DigitalWrite 11 LOW, DigitalWrite 12 LOW, DigitalWrite 13 LOW]"
  using clearDisplay_writes_off [of showing_1234]
  by (simp add: showing_1234_def four_digits_def well_formed_def upt_rec)

text \<open>
  Claim C10. \<open>clearDisplay\<close> changes nothing but the trace of writes: cursor and
  segment codes stay. The next \<open>updateDisplay\<close> therefore advances from the cursor of
  before the clear and performs the on-action of the new step from the stored segment
  codes, ending with the write that switches the common line of that step on.
\<close>

theorem clearDisplay_keeps_state:
  assumes "well_formed s" "common s < REFRESH_STEPS r s"
  shows "\<exists>s1 s2. clearDisplay s = Some s1 \<and> s1 = s\<lparr>io := io s1\<rparr>
           \<and> common s1 = common s \<and> digitCodes s1 = digitCodes s
           \<and> updateDisplay r s1 = Some s2
           \<and> common s2 = (common s + 1) mod REFRESH_STEPS r s
           \<and> digitCodes s2 = digitCodes s
           \<and> io s2 = io s1 @ off_writes r (common s) s @ on_writes r (common s2) s
           \<and> last (io s2) = (case r of
                 ON_DIGITS \<Rightarrow> DigitalWrite (segmentPins s ! common s2) (segmentOn s)
               | ON_SEGMENTS \<Rightarrow> DigitalWrite (digitPins s ! common s2) (digitOn s))"
proof -
  define s1 where "s1 = s\<lparr>io := io s
           @ [DigitalWrite (digitPins s ! d) (digitOff s). d \<leftarrow> [0..<numDigits s]]
           @ [DigitalWrite (segmentPins s ! g) (segmentOff s). g \<leftarrow> [0..<8]]\<rparr>"
  define c' where "c' = (common s + 1) mod REFRESH_STEPS r s"
  define s2 where "s2 = s1\<lparr>common := c', io := io s1 @ off_writes r (common s) s @ on_writes r c' s\<rparr>"
  have cl: "clearDisplay s = Some s1" unfolding s1_def by (rule clearDisplay_eq [OF assms(1)])
  have w: "well_formed s1" "common s1 < REFRESH_STEPS r s1"
    using assms by (simp_all add: s1_def)
  have upd: "updateDisplay r s1 = Some s2"
    using updateDisplay_eq [OF w] by (simp add: s2_def c'_def s1_def)
  have "last (on_writes r c' s) = (case r of
                 ON_DIGITS \<Rightarrow> DigitalWrite (segmentPins s ! c') (segmentOn s)
               | ON_SEGMENTS \<Rightarrow> DigitalWrite (digitPins s ! c') (digitOn s))"
    by (cases r) (simp_all add: on_writes_def cong: if_cong)
  moreover have "on_writes r c' s \<noteq> []" by (cases r) (simp_all add: on_writes_def cong: if_cong)
  ultimately have l: "last (io s2) = (case r of
                 ON_DIGITS \<Rightarrow> DigitalWrite (segmentPins s ! c') (segmentOn s)
               | ON_SEGMENTS \<Rightarrow> DigitalWrite (digitPins s ! c') (digitOn s))"
    by (simp add: s2_def)
  have a: "s1 = s\<lparr>io := io s1\<rparr>" "common s1 = common s" "digitCodes s1 = digitCodes s"
    by (simp_all add: s1_def)
  have b: "common s2 = c'" "digitCodes s2 = digitCodes s"
    "io s2 = io s1 @ off_writes r (common s) s @ on_writes r (common s2) s"
    by (simp_all add: s2_def s1_def)
  have l': "last (io s2) = (case r of
                 ON_DIGITS \<Rightarrow> DigitalWrite (segmentPins s ! common s2) (segmentOn s)
               | ON_SEGMENTS \<Rightarrow> DigitalWrite (digitPins s ! common s2) (digitOn s))"
    using l by (simp only: b(1))
  have b1: "common s2 = (common s + 1) mod REFRESH_STEPS r s" using b(1) by (simp only: c'_def)
  show ?thesis
    by (intro exI [of _ s1] exI [of _ s2] conjI cl a upd b1 b(2,3) l')
qed

theorem clearDisplay_keeps_state_witness:
  "\<exists>s1 s2. clearDisplay showing_1234 = Some s1 \<and> s1 = showing_1234\<lparr>io := io s1\<rparr>
      \<and> common s1 = 3 \<and> digitCodes s1 = digitCodes showing_1234
      \<and> updateDisplay ON_SEGMENTS s1 = Some s2 \<and> common s2 = 0
      \<and> digitCodes s2 = digitCodes showing_1234
      \<and> io s2 = io s1 @ off_writes ON_SEGMENTS 3 showing_1234 @ on_writes ON_SEGMENTS 0 showing_1234
      \<and> last (io s2) = DigitalWrite 2 LOW"
  using clearDisplay_keeps_state [of showing_1234 ON_SEGMENTS]
  by (auto simp: showing_1234_def four_digits_def well_formed_def REFRESH_STEPS_def)

section \<open>The static bounds\<close>

lemma setNewNum_bounds:
  assumes "bounds s = Some b" "setNewNum s v dp = Some s'"
  shows "bounds s' = Some b \<and> numDigits s' = numDigits s"
  using assms
  by (auto simp: setNewNum_def findDigits_def setDigitCodes_def Let_def
      split: bind_splits if_splits prod.splits)

lemma findDigits_bounds:
  assumes "findDigits s v dp ds = Some (ds', s')"
  shows "bounds s' = (case bounds s of None \<Rightarrow> init_bounds (numDigits s) | Some b \<Rightarrow> Some b)"
  using assms
  by (auto simp: findDigits_def Let_def split: bind_splits if_splits prod.splits option.splits)

lemma findDigits_uses_bounds:
  assumes "bounds s = Some (mx, mn)"
  shows "findDigits s v dp ds =
           (if mx < v \<or> v < mn then map_option (\<lambda>d. (d, s)) (dash_loop (numDigits s) 0 ds)
            else map_option (\<lambda>d. (d, s))
                   (decompose (numDigits s) v ds \<bind> blank_loop (numDigits s) dp 0))"
proof -
  have "s\<lparr>bounds := Some (mx, mn)\<rparr> = s" using assms by simp
  then show ?thesis using assms
    by (auto simp: findDigits_def Let_def split: bind_splits)
qed

lemma begin'_bounds:
  assumes "bounds s = Some b" "begin' S7_DIGITS hw n dpins spins s = Some s1"
  shows "bounds s1 = Some b \<and> numDigits s1 = min (unat n) S7_DIGITS"
proof -
  define N where "N = min (unat n) S7_DIGITS"
  define P where "P = (\<lambda>t::sevseg. bounds t = Some b \<and> numDigits t = N)"
  define s0 where "s0 = (if S7_DIGITS < unat n then s\<lparr>numDigits := S7_DIGITS\<rparr> else s\<lparr>numDigits := unat n\<rparr>)"
  define sa where "sa = (if hw = 0 then s0\<lparr>digitOn := LOW, segmentOn := HIGH\<rparr>
              else if hw = 1 then s0\<lparr>digitOn := HIGH, segmentOn := LOW\<rparr>
              else if hw = 2 then s0\<lparr>digitOn := HIGH, segmentOn := HIGH\<rparr>
              else if hw = 3 then s0\<lparr>digitOn := LOW, segmentOn := LOW\<rparr>
              else s0)"
  define sb where "sb = sa\<lparr>digitOff := lnot (digitOn sa), segmentOff := lnot (segmentOn sa)\<rparr>"
  have Psb: "P sb" using assms(1) by (auto simp: P_def sb_def sa_def s0_def N_def)
  from assms(2) obtain t1 t2 t3 t4 where
    l1: "for_loop 0 8 (\<lambda>segmentNum s. do {
            pin \<leftarrow> at spins (int segmentNum);
            pins \<leftarrow> put (segmentPins s) segmentNum pin;
            Some (s\<lparr>segmentPins := pins\<rparr>)
          }) sb = Some t1"
    and l2: "for_loop 0 (numDigits t1) (\<lambda>digitNum s. do {
            pin \<leftarrow> at dpins (int digitNum);
            pins \<leftarrow> put (digitPins s) digitNum pin;
            Some (s\<lparr>digitPins := pins\<rparr>)
          }) t1 = Some t2"
    and l3: "for_loop 0 (numDigits t2) (\<lambda>digit s. do {
            pin \<leftarrow> at (digitPins s) (int digit);
            Some (digitalWrite pin (digitOff s) (pinMode_OUTPUT pin s))
          }) t2 = Some t3"
    and l4: "for_loop 0 8 (\<lambda>segmentNum s. do {
            pin \<leftarrow> at (segmentPins s) (int segmentNum);
            Some (digitalWrite pin (segmentOff s) (pinMode_OUTPUT pin s))
          }) t3 = Some t4"
    and l5: "setNewNum t4 0 0 = Some s1"
    unfolding begin'_def Let_def sb_def sa_def s0_def
    by (auto split: bind_splits if_splits)
  have "P t1"
    by (rule for_loop_preserves [where P = P, OF l1 Psb]) (auto simp: P_def split: bind_splits)
  then have "P t2"
    by (rule for_loop_preserves [where P = P, OF l2]) (auto simp: P_def split: bind_splits)
  then have "P t3"
    by (rule for_loop_preserves [where P = P, OF l3])
      (auto simp: P_def digitalWrite_def pinMode_OUTPUT_def split: bind_splits)
  then have "P t4"
    by (rule for_loop_preserves [where P = P, OF l4])
      (auto simp: P_def digitalWrite_def pinMode_OUTPUT_def split: bind_splits)
  then show ?thesis using setNewNum_bounds [OF _ l5, of b] by (simp add: P_def N_def)
qed

text \<open>
  Claim C9. A call of \<open>findDigits\<close> initialises the bounds from the digit count only
  when they are not yet initialised, and otherwise leaves them. Once they are initialised,
  \<open>begin'\<close> with any digit count keeps them, and the range check of every later
  \<open>findDigits\<close> compares with them, not with the bounds of the new digit count.
\<close>

theorem bounds_survive_begin:
  assumes "bounds s = Some (mx, mn)"
    and "begin' S7_DIGITS hardwareConfig numDigitsIn digitPinsIn segmentPinsIn s = Some s1"
    and "length digits = numDigits s1"
  shows "(\<forall>t v decPlaces ds ds' t'. findDigits t v decPlaces ds = Some (ds', t') \<longrightarrow>
            bounds t' = (case bounds t of None \<Rightarrow> init_bounds (numDigits t) | Some b \<Rightarrow> Some b))
       \<and> numDigits s1 = min (unat numDigitsIn) S7_DIGITS
       \<and> bounds s1 = Some (mx, mn)
       \<and> (\<forall>v decPlaces. findDigits s1 v decPlaces digits =
            (if mx < v \<or> v < mn then Some (replicate (numDigits s1) DASH, s1)
             else map_option (\<lambda>d. (d, s1))
                    (decompose (numDigits s1) v digits \<bind> blank_loop (numDigits s1) decPlaces 0)))"
proof -
  have b: "bounds s1 = Some (mx, mn)" "numDigits s1 = min (unat numDigitsIn) S7_DIGITS"
    using begin'_bounds [OF assms(1,2)] by simp_all
  have d: "dash_loop (numDigits s1) 0 digits = Some (replicate (numDigits s1) DASH)"
    using dash_loop_eq [of 0 "numDigits s1" digits] assms(3) by simp
  have "findDigits s1 v decPlaces digits =
            (if mx < v \<or> v < mn then Some (replicate (numDigits s1) DASH, s1)
             else map_option (\<lambda>d. (d, s1))
                    (decompose (numDigits s1) v digits \<bind> blank_loop (numDigits s1) decPlaces 0))"
    for v decPlaces
    using findDigits_uses_bounds [OF b(1), of v decPlaces digits] by (simp add: d)
  then show ?thesis using b findDigits_bounds by blast
qed

theorem bounds_survive_begin_witness:
  "(\<exists>s1. begin' 8 0 2 [2, 3] [6, 7, 8, 9, 10, 11, 12, 13] (SevSeg four_digits) = Some two_digits
      \<and> begin' 8 0 4 [2, 3, 4, 5] [6, 7, 8, 9, 10, 11, 12, 13] two_digits = Some s1
      \<and> numDigits s1 = 4 \<and> bounds s1 = Some (99, - 9)
      \<and> findDigits s1 1234 0 [0, 0, 0, 0] = Some ([DASH, DASH, DASH, DASH], s1))
   \<and> (\<exists>ds' t'. findDigits four_digits 1234 0 [0, 0, 0, 0] = Some (ds', t')
      \<and> bounds t' = Some (9999, - 999) \<and> ds' = [1, 2, 3, 4])"
proof -
  define s1 where "s1 = the (begin' 8 0 4 [2, 3, 4, 5] [6, 7, 8, 9, 10, 11, 12, 13] two_digits)"
  have a: "begin' 8 0 2 [2, 3] [6, 7, 8, 9, 10, 11, 12, 13] (SevSeg four_digits) = Some two_digits"
    by code_simp
  have b: "begin' 8 0 4 [2, 3, 4, 5] [6, 7, 8, 9, 10, 11, 12, 13] two_digits = Some s1"
    unfolding s1_def by code_simp
  have c: "bounds two_digits = Some (99, - 9)" by (simp add: two_digits_def)
  have n: "numDigits s1 = 4" using begin'_bounds [OF c b] by simp
  have l: "length [0, 0, 0, 0 :: byte] = numDigits s1" using n by simp
  have r: "replicate 4 DASH = [DASH, DASH, DASH, DASH]" by (simp add: numeral_eq_Suc)
  note inst = bounds_survive_begin [OF c b l]
  have "bounds s1 = Some (99, - 9)"
    "findDigits s1 1234 0 [0, 0, 0, 0] = Some ([DASH, DASH, DASH, DASH], s1)"
    using inst by (simp_all add: n r)
  then have first: "\<exists>s1. begin' 8 0 2 [2, 3] [6, 7, 8, 9, 10, 11, 12, 13] (SevSeg four_digits) = Some two_digits
      \<and> begin' 8 0 4 [2, 3, 4, 5] [6, 7, 8, 9, 10, 11, 12, 13] two_digits = Some s1
      \<and> numDigits s1 = 4 \<and> bounds s1 = Some (99, - 9)
      \<and> findDigits s1 1234 0 [0, 0, 0, 0] = Some ([DASH, DASH, DASH, DASH], s1)"
    using a b n by blast
  define t' where "t' = four_digits\<lparr>bounds := Some (9999, - 999)\<rparr>"
  have f: "findDigits four_digits 1234 0 [0, 0, 0, 0] = Some ([1, 2, 3, 4], t')"
    unfolding t'_def by code_simp
  have "bounds t' = (case bounds four_digits of None \<Rightarrow> init_bounds (numDigits four_digits)
                      | Some b \<Rightarrow> Some b)"
    using inst f by blast
  then have "bounds t' = Some (9999, - 999)" by (simp add: t'_def)
  then have second: "\<exists>ds' t'. findDigits four_digits 1234 0 [0, 0, 0, 0] = Some (ds', t')
      \<and> bounds t' = Some (9999, - 999) \<and> ds' = [1, 2, 3, 4]"
    using f by blast
  show ?thesis using first second by (rule conjI)
qed

end
